theory Spec2Isabelle
  imports Complex_Main "HOL-Library.Log_Nat" "HOL-Library.AList"
begin

section \<open>Python values used by the session manager\<close>

text \<open>
  The program is one Python module (\<^verbatim>\<open>app.py\<close>).  Its module-level dictionaries are
  modelled as association lists in insertion order: \<open>map_of d k\<close> is the lookup
  (\<open>None\<close> when \<^verbatim>\<open>k not in d\<close>), \<open>AList.update k v d\<close> is \<^verbatim>\<open>d[k] = v\<close> (in place
  when the key exists, appended otherwise), \<open>AList.delete k d\<close> is \<^verbatim>\<open>del d[k]\<close> and
  \<open>map fst d\<close> is \<^verbatim>\<open>list(d.keys())\<close>.
\<close>

type_synonym gate = string
type_synonym time = rat
type_synonym tid = nat
type_synonym capid = nat
type_synonym ('k, 'v) dict = "('k \<times> 'v) list"

subsection \<open>Binary64 arithmetic\<close>

text \<open>
  \<^verbatim>\<open>capacity * 0.8\<close> and the differences of \<^verbatim>\<open>time.time()\<close> readings are computed in IEEE
  binary64.  A float is represented by the rational it denotes; \<open>round_double\<close> rounds a
  rational to the nearest number with a 53-bit significand, ties to even.  Overflow to
  infinity and subnormal numbers are outside the range the program works in and are not
  represented.
\<close>

definition binade :: "rat \<Rightarrow> int" where
  "binade x =
     (if 1 \<le> x then int (floorlog 2 (nat \<lfloor>x\<rfloor>)) - 1
      else - int (floorlog 2 (nat (\<lceil>1 / x\<rceil> - 1))))"

definition ulp :: "rat \<Rightarrow> rat" where
  "ulp x =
     (let e = binade x
      in if 52 \<le> e then 2 ^ nat (e - 52) else 1 / 2 ^ nat (52 - e))"

definition round_half_even :: "rat \<Rightarrow> int" where
  "round_half_even m =
     (let f = \<lfloor>m\<rfloor>; r = m - of_int f
      in if r < 1 / 2 then f
         else if 1 / 2 < r then f + 1
         else if even f then f else f + 1)"

definition round_double :: "rat \<Rightarrow> rat" where
  "round_double x =
     (if x = 0 then 0
      else let q = ulp \<bar>x\<bar>
           in sgn x * of_int (round_half_even (\<bar>x\<bar> / q)) * q)"

definition float_of_int :: "int \<Rightarrow> rat" where
  "float_of_int i = round_double (of_int i)"

definition float_mul :: "rat \<Rightarrow> rat \<Rightarrow> rat" where
  "float_mul a b = round_double (a * b)"

definition float_sub :: "rat \<Rightarrow> rat \<Rightarrow> rat" where
  "float_sub a b = round_double (a - b)"

definition float_div :: "rat \<Rightarrow> rat \<Rightarrow> rat" where
  "float_div a b = round_double (a / b)"

text \<open>The literal \<^verbatim>\<open>0.8\<close>.\<close>

definition lit_0_8 :: rat where
  "lit_0_8 = round_double (4 / 5)"

subsection \<open>Configuration\<close>

record gate_descriptor =
  capacity :: int
  gate_name :: string
  position :: string

definition GATE_CONFIG :: "(gate, gate_descriptor) dict" where
  "GATE_CONFIG =
     [(''A'', \<lparr>capacity = 200, gate_name = ''Gate A'', position = ''top''\<rparr>),
      (''B'', \<lparr>capacity = 300, gate_name = ''Gate B'', position = ''left-top''\<rparr>),
      (''C'', \<lparr>capacity = 250, gate_name = ''Gate C'', position = ''right-top''\<rparr>),
      (''D'', \<lparr>capacity = 350, gate_name = ''Gate D'', position = ''left-bottom''\<rparr>),
      (''E'', \<lparr>capacity = 300, gate_name = ''Gate E'', position = ''right-bottom''\<rparr>),
      (''F'', \<lparr>capacity = 400, gate_name = ''Gate F'', position = ''bottom''\<rparr>),
      (''Temple'', \<lparr>capacity = 1000, gate_name = ''Temple Area'', position = ''center''\<rparr>)]"

definition TARGET_FPS :: int where
  "TARGET_FPS = 10"

definition PROCESS_EVERY_N_FRAMES :: nat where
  "PROCESS_EVERY_N_FRAMES = 2"

definition max_retries :: nat where
  "max_retries = 10"

subsection \<open>Data model\<close>

text \<open>An entry of \<^verbatim>\<open>mobile_devices\<close>.  Both writers store the key \<^verbatim>\<open>stream_url\<close>.\<close>

record mobile_config =
  m_stream_url :: string
  m_device_name :: "string option"
  m_registered_at :: "time option"
  m_camera_type :: string

text \<open>
  A dictionary put on a gate's queue.  Error items carry \<^verbatim>\<open>error\<close>, \<^verbatim>\<open>count\<close> and
  \<^verbatim>\<open>status\<close>; result items carry \<^verbatim>\<open>count\<close>, \<^verbatim>\<open>status\<close>, \<^verbatim>\<open>frame\<close>, \<^verbatim>\<open>timestamp\<close>
  and \<^verbatim>\<open>is_mobile\<close>.  An absent key is \<open>None\<close>.
\<close>

record q_item =
  q_error :: "string option"
  q_count :: int
  q_status :: string
  q_frame :: "string option"
  q_timestamp :: "time option"
  q_is_mobile :: "bool option"

text \<open>The per-gate dictionary returned by \<^verbatim>\<open>get_camera_status\<close>.\<close>

record gate_status =
  st_connected :: bool
  st_count :: int
  st_status :: string
  st_frame :: string
  st_camera_type :: string
  st_error :: string
  st_device_name :: "string option"
  st_timestamp :: "time option"
  st_is_mobile :: "bool option"

text \<open>
  A \<^verbatim>\<open>threading.Thread\<close> running \<^verbatim>\<open>camera_worker(gate_id, camera_source)\<close>: its two
  arguments, where it stands in the function, and the function's local variables.
  \<open>Created\<close> is a started thread that has not yet finished the acquisition block,
  \<open>Looping\<close> one that is about to evaluate the \<^verbatim>\<open>while\<close> condition, \<open>Finished\<close> one whose
  function has returned (\<^verbatim>\<open>is_alive()\<close> is false).  \<open>w_detections\<close> counts the calls of
  \<^verbatim>\<open>detect_people_yolov8\<close> the thread has made; it is the only field that is not a
  variable of the source.
\<close>

datatype pc = Created | Looping | Finished

record worker =
  w_gate :: gate
  w_source :: string
  w_pc :: pc
  w_cap :: "capid option"
  w_is_mobile :: bool
  w_last_processed_time :: time
  w_frame_count :: nat
  w_retry_count :: nat
  w_detections :: nat

text \<open>
  The module state: the six dictionaries, every thread started so far (a thread's
  identity is its index) and every \<^verbatim>\<open>cv2.VideoCapture\<close> object constructed so far (a
  handle's identity is its index; the entry tells whether the handle is open).
\<close>

record sys =
  active_cameras :: "(gate, bool) dict"
  camera_queues :: "(gate, q_item list) dict"
  camera_threads :: "(gate, tid) dict"
  camera_captures :: "(gate, capid) dict"
  camera_last_update :: "(gate, time) dict"
  mobile_devices :: "(gate, mobile_config) dict"
  threads :: "worker list"
  caps :: "bool list"

definition initial_state :: sys where
  "initial_state =
     \<lparr>active_cameras = [], camera_queues = [], camera_threads = [], camera_captures = [],
      camera_last_update = [], mobile_devices = [], threads = [], caps = []\<rparr>"

subsection \<open>What a worker observes\<close>

text \<open>
  The capture adapter, the detector, the image encoder, the URL check and the clock are
  external.  Each step of a worker is given the values they return in that step:
  \<^item> \<open>o_acquire_raises\<close>: an exception that escapes the acquisition block, for instance
    the \<^verbatim>\<open>TypeError\<close> of \<^verbatim>\<open>int(camera_source)\<close> on a source that is neither text nor
    a number;
  \<^item> \<open>o_index\<close>: the value of \<^verbatim>\<open>int(camera_source)\<close>, \<open>None\<close> when it raises
    \<^verbatim>\<open>ValueError\<close>;
  \<^item> \<open>o_valid_url\<close>: the answer of \<^verbatim>\<open>is_valid_url(camera_source)\<close>;
  \<^item> \<open>o_opened\<close>: the answer of \<^verbatim>\<open>cap.isOpened()\<close>;
  \<^item> \<open>o_time\<close>: the reading of \<^verbatim>\<open>time.time()\<close> at the head of a pass of the loop;
  \<^item> \<open>o_read\<close>: what \<^verbatim>\<open>cap.read()\<close> does in that pass;
  \<^item> \<open>f_resize_raises\<close>: an exception raised between the read and the call of the
    detector (\<^verbatim>\<open>frame.shape\<close>, \<^verbatim>\<open>cv2.resize\<close>);
  \<^item> \<open>f_people\<close>: the value returned by \<^verbatim>\<open>detect_people_yolov8\<close>, which catches its
    own exceptions;
  \<^item> \<open>f_preview\<close>: the encoded preview, \<open>None\<close> when the encoding raises (the worker
    then publishes an empty preview).

  A request handler reads the clock once; \<^verbatim>\<open>release()\<close> of a capture does not raise.
  A worker looks its queue up by gate id at every \<^verbatim>\<open>put\<close>, and the look-up and the
  \<^verbatim>\<open>put\<close> are taken as one step.
\<close>

record frame_obs =
  f_resize_raises :: "string option"
  f_people :: int
  f_preview :: "string option"

datatype read_result = ReadRaises string | ReadFailed | ReadFrame frame_obs

record obs =
  o_acquire_raises :: "string option"
  o_index :: "int option"
  o_valid_url :: bool
  o_opened :: bool
  o_time :: time
  o_read :: read_result

section \<open>The camera worker\<close>

fun digits :: "nat \<Rightarrow> string" where
  "digits n =
     (if n < 10 then [char_of (48 + n)]
      else digits (n div 10) @ [char_of (48 + n mod 10)])"

definition str_int :: "int \<Rightarrow> string" where
  "str_int i = (if i < 0 then CHR ''-'' # digits (nat (- i)) else digits (nat i))"

text \<open>Lines 291-294: the status published with a count.\<close>

definition occupancy_status :: "int \<Rightarrow> int \<Rightarrow> string" where
  "occupancy_status people_count cap =
     (if people_count > cap then ''overcrowded''
      else if of_int people_count > float_mul (float_of_int cap) lit_0_8 then ''warning''
      else ''normal'')"

definition error_item :: "string \<Rightarrow> q_item" where
  "error_item msg =
     \<lparr>q_error = Some msg, q_count = 0, q_status = ''disconnected'', q_frame = None,
      q_timestamp = None, q_is_mobile = None\<rparr>"

text \<open>\<^verbatim>\<open>if gate_id in camera_queues: camera_queues[gate_id].put(item)\<close>\<close>

definition publish :: "gate \<Rightarrow> q_item \<Rightarrow> sys \<Rightarrow> sys" where
  "publish g item s =
     (case map_of (camera_queues s) g of
        None \<Rightarrow> s
      | Some q \<Rightarrow> s\<lparr>camera_queues := AList.update g (q @ [item]) (camera_queues s)\<rparr>)"

text \<open>
  The \<^verbatim>\<open>finally\<close> block (lines 329-336).  A \<^verbatim>\<open>VideoCapture\<close> object is always truthy,
  so the block releases whatever handle is registered for the gate and deletes the
  entry.
\<close>

definition finally_block :: "gate \<Rightarrow> sys \<Rightarrow> sys" where
  "finally_block g s =
     (case map_of (camera_captures s) g of
        None \<Rightarrow> s
      | Some c \<Rightarrow> s\<lparr>camera_captures := AList.delete g (camera_captures s),
                    caps := (caps s)[c := False]\<rparr>)"

definition set_worker :: "tid \<Rightarrow> worker \<Rightarrow> sys \<Rightarrow> sys" where
  "set_worker t w s = s\<lparr>threads := (threads s)[t := w]\<rparr>"

text \<open>Leaving the function: the \<^verbatim>\<open>finally\<close> block runs and the thread is dead.\<close>

definition finish :: "tid \<Rightarrow> worker \<Rightarrow> sys \<Rightarrow> sys" where
  "finish t w s = set_worker t (w\<lparr>w_pc := Finished\<rparr>) (finally_block (w_gate w) s)"

text \<open>The \<^verbatim>\<open>except Exception\<close> block (lines 320-328), followed by \<^verbatim>\<open>finally\<close>.\<close>

definition except_block :: "string \<Rightarrow> tid \<Rightarrow> worker \<Rightarrow> sys \<Rightarrow> sys" where
  "except_block msg t w s =
     finish t w (publish (w_gate w) (error_item (''Camera error: '' @ msg)) s)"

text \<open>A failed open (lines 173-181, 192-200, 210-218, 219-227): publish and return.\<close>

definition open_failed :: "string \<Rightarrow> tid \<Rightarrow> worker \<Rightarrow> sys \<Rightarrow> sys" where
  "open_failed msg t w s = finish t w (publish (w_gate w) (error_item msg) s)"

text \<open>
  \<^verbatim>\<open>cap = cv2.VideoCapture(...)\<close> followed by \<^verbatim>\<open>cap.isOpened()\<close>: a new handle, open or
  not as observed.  When it is open the worker goes on to line 240,
  \<^verbatim>\<open>camera_captures[gate_id] = cap\<close>, and enters the loop.
\<close>

definition open_capture :: "bool \<Rightarrow> string \<Rightarrow> obs \<Rightarrow> tid \<Rightarrow> worker \<Rightarrow> sys \<Rightarrow> sys" where
  "open_capture mobile fail_msg ob t w s =
     (let c = length (caps s);
          s1 = s\<lparr>caps := caps s @ [o_opened ob]\<rparr>
      in if o_opened ob
         then set_worker t
                (w\<lparr>w_pc := Looping, w_cap := Some c, w_is_mobile := mobile, w_retry_count := 0\<rparr>)
                (s1\<lparr>camera_captures := AList.update (w_gate w) c (camera_captures s1)\<rparr>)
         else open_failed fail_msg t (w\<lparr>w_cap := Some c\<rparr>) s1)"

text \<open>
  Lines 152-241.  Since every entry of \<^verbatim>\<open>mobile_devices\<close> has a \<^verbatim>\<open>stream_url\<close>, the
  mobile branch always constructs a capture, and the check of line 229 (no capture, or a
  capture that is not open) cannot fire after a branch that went through.
\<close>

definition acquire :: "obs \<Rightarrow> tid \<Rightarrow> worker \<Rightarrow> sys \<Rightarrow> sys" where
  "acquire ob t w s =
     (case o_acquire_raises ob of
        Some msg \<Rightarrow> except_block msg t w s
      | None \<Rightarrow>
          if map_of (mobile_devices s) (w_gate w) \<noteq> None \<and> w_source w = ''mobile''
          then open_capture True ''Failed to connect to mobile camera. Please check the URL.''
                 ob t w s
          else
            (case o_index ob of
               Some camera_index \<Rightarrow>
                 open_capture False
                   (''Could not open webcam '' @ str_int camera_index
                      @ ''. Please check if camera is connected.'')
                   ob t w s
             | None \<Rightarrow>
                 if o_valid_url ob
                 then open_capture False (''Failed to connect to camera URL: '' @ w_source w)
                        ob t w s
                 else open_failed (''Invalid camera source: '' @ w_source w) t w s))"

text \<open>Lines 288-315: classify, encode and publish one processed frame.\<close>

definition result_item :: "int \<Rightarrow> int \<Rightarrow> frame_obs \<Rightarrow> time \<Rightarrow> bool \<Rightarrow> q_item" where
  "result_item people_count cap f current_time mobile =
     \<lparr>q_error = None, q_count = people_count, q_status = occupancy_status people_count cap,
      q_frame = Some (case f_preview f of None \<Rightarrow> [] | Some d \<Rightarrow> d),
      q_timestamp = Some current_time, q_is_mobile = Some mobile\<rparr>"

definition process_frame :: "frame_obs \<Rightarrow> time \<Rightarrow> tid \<Rightarrow> worker \<Rightarrow> sys \<Rightarrow> sys" where
  "process_frame f current_time t w s =
     (case f_resize_raises f of
        Some msg \<Rightarrow> except_block msg t w s
      | None \<Rightarrow>
          let w1 = w\<lparr>w_detections := w_detections w + 1\<rparr>
          in case map_of (camera_queues s) (w_gate w) of
               None \<Rightarrow> set_worker t w1 s
             | Some q \<Rightarrow>
                 (case map_of GATE_CONFIG (w_gate w) of
                    None \<Rightarrow> except_block ([CHR 0x27] @ w_gate w @ [CHR 0x27]) t w1 s
                  | Some cfg \<Rightarrow>
                      set_worker t (w1\<lparr>w_last_processed_time := current_time\<rparr>)
                        (publish (w_gate w)
                           (result_item (f_people f) (capacity cfg) f current_time (w_is_mobile w))
                           s)))"

text \<open>Line 248: \<^verbatim>\<open>current_time - last_processed_time < (1.0 / TARGET_FPS)\<close>\<close>

definition ahead_of_target :: "time \<Rightarrow> worker \<Rightarrow> bool" where
  "ahead_of_target current_time w \<longleftrightarrow>
     float_sub current_time (w_last_processed_time w) < float_div 1 (of_int TARGET_FPS)"

text \<open>One evaluation of the \<^verbatim>\<open>while\<close> condition and, when it holds, one pass of the body.\<close>

definition iterate :: "obs \<Rightarrow> tid \<Rightarrow> worker \<Rightarrow> sys \<Rightarrow> sys" where
  "iterate ob t w s =
     (if map_of (active_cameras s) (w_gate w) \<noteq> Some True then finish t w s
      else if ahead_of_target (o_time ob) w then s
      else
        (case o_read ob of
           ReadRaises msg \<Rightarrow> except_block msg t w s
         | ReadFailed \<Rightarrow>
             let w1 = w\<lparr>w_retry_count := w_retry_count w + 1\<rparr>
             in if w_retry_count w1 > max_retries
                then finish t w1
                       (publish (w_gate w)
                          (error_item ''Camera stream disconnected. Please reconnect.'') s)
                else set_worker t w1 s
         | ReadFrame f \<Rightarrow>
             let w1 = w\<lparr>w_retry_count := 0, w_frame_count := w_frame_count w + 1\<rparr>
             in if w_frame_count w1 mod PROCESS_EVERY_N_FRAMES = 0
                then process_frame f (o_time ob) t w1 s
                else set_worker t w1 s))"

text \<open>One step of thread \<open>t\<close>.  A thread that has returned, or was never started, does nothing.\<close>

definition worker_step :: "obs \<Rightarrow> tid \<Rightarrow> sys \<Rightarrow> sys" where
  "worker_step ob t s =
     (if t < length (threads s)
      then (case w_pc (threads s ! t) of
              Created \<Rightarrow> acquire ob t (threads s ! t) s
            | Looping \<Rightarrow> iterate ob t (threads s ! t) s
            | Finished \<Rightarrow> s)
      else s)"

text \<open>
  \<^verbatim>\<open>camera_worker\<close>, run for the observations given: the acquisition block first, then
  one pass of the loop per observation.  Its arguments \<^verbatim>\<open>gate_id\<close> and \<^verbatim>\<open>camera_source\<close>
  are fields of the thread.  The loop has no bound of its own; a thread that is still
  alive after the last observation has simply not been run further.
\<close>

fun camera_worker :: "obs list \<Rightarrow> tid \<Rightarrow> sys \<Rightarrow> sys" where
  "camera_worker [] t s = s"
| "camera_worker (ob # obs) t s = camera_worker obs t (worker_step ob t s)"

section \<open>The session manager\<close>

definition is_alive :: "tid \<Rightarrow> sys \<Rightarrow> bool" where
  "is_alive t s = (t < length (threads s) \<and> w_pc (threads s ! t) \<noteq> Finished)"

definition new_worker :: "gate \<Rightarrow> string \<Rightarrow> worker" where
  "new_worker g src =
     \<lparr>w_gate = g, w_source = src, w_pc = Created, w_cap = None, w_is_mobile = False,
      w_last_processed_time = 0, w_frame_count = 0, w_retry_count = 0, w_detections = 0\<rparr>"

text \<open>
  \<^verbatim>\<open>thread = threading.Thread(target=camera_worker, args=(g, src)); thread.start();
  camera_threads[g] = thread\<close>
\<close>

definition spawn :: "gate \<Rightarrow> string \<Rightarrow> sys \<Rightarrow> sys" where
  "spawn g src s =
     s\<lparr>threads := threads s @ [new_worker g src],
       camera_threads := AList.update g (length (threads s)) (camera_threads s)\<rparr>"

text \<open>
  \<^verbatim>\<open>if g in camera_threads and camera_threads[g].is_alive(): camera_threads[g].join(timeout)\<close>.
  While the caller waits, the joined thread performs the steps \<open>during\<close>; the caller goes
  on when the thread has returned or the timeout has passed, whichever comes first, so
  \<open>during\<close> may leave the thread alive.
\<close>

definition join_thread :: "obs list \<Rightarrow> gate \<Rightarrow> sys \<Rightarrow> sys" where
  "join_thread during g s =
     (case map_of (camera_threads s) g of
        None \<Rightarrow> s
      | Some t \<Rightarrow> if is_alive t s then camera_worker during t s else s)"

definition stop_worker :: "obs list \<Rightarrow> gate \<Rightarrow> sys \<Rightarrow> sys" where
  "stop_worker during g s =
     join_thread during g (s\<lparr>active_cameras := AList.update g False (active_cameras s)\<rparr>)"

datatype response = Success | BadRequest | ServerError

record connect_request =
  c_gate_id :: "string option"
  c_camera_source :: string
  c_camera_type :: "string option"
  c_stream_url :: "string option"

text \<open>
  \<^verbatim>\<open>connect_camera\<close>.  \<open>None\<close> is a request whose body is not a JSON object: the
  handler's \<^verbatim>\<open>except\<close> answers 500 before any dictionary is touched.
\<close>

definition connect_camera :: "time \<Rightarrow> obs list \<Rightarrow> connect_request option \<Rightarrow> sys \<Rightarrow> response \<times> sys" where
  "connect_camera now during req s =
     (case req of
        None \<Rightarrow> (ServerError, s)
      | Some data \<Rightarrow>
          (case c_gate_id data of
             None \<Rightarrow> (BadRequest, s)
           | Some gate_id \<Rightarrow>
               if gate_id = [] then (BadRequest, s)
               else
                 let s1 = (if map_of (active_cameras s) gate_id \<noteq> None
                           then stop_worker during gate_id s else s);
                     s2 = s1\<lparr>camera_queues := AList.update gate_id [] (camera_queues s1)\<rparr>;
                     s3 = s2\<lparr>active_cameras := AList.update gate_id True (active_cameras s2)\<rparr>;
                     s4 = s3\<lparr>camera_last_update :=
                               AList.update gate_id now (camera_last_update s3)\<rparr>
                 in case (if c_camera_type data = Some ''mobile'' then c_stream_url data else None) of
                      Some url \<Rightarrow>
                        (Success,
                         spawn gate_id ''mobile''
                           (s4\<lparr>mobile_devices :=
                                 AList.update gate_id
                                   \<lparr>m_stream_url = url, m_device_name = None,
                                    m_registered_at = None, m_camera_type = ''mobile''\<rparr>
                                   (mobile_devices s4)\<rparr>))
                    | None \<Rightarrow> (Success, spawn gate_id (c_camera_source data) s4)))"

record register_request =
  r_gate_id :: "string option"
  r_stream_url :: "string option"
  r_device_name :: "string option"

text \<open>\<^verbatim>\<open>register_mobile\<close>; \<open>valid\<close> is the answer of \<^verbatim>\<open>is_valid_url(stream_url)\<close>.\<close>

definition register_mobile :: "time \<Rightarrow> bool \<Rightarrow> register_request option \<Rightarrow> sys \<Rightarrow> response \<times> sys" where
  "register_mobile now valid req s =
     (case req of
        None \<Rightarrow> (ServerError, s)
      | Some data \<Rightarrow>
          (case (r_gate_id data, r_stream_url data) of
             (Some gate_id, Some url) \<Rightarrow>
               if gate_id = [] \<or> url = [] then (BadRequest, s)
               else if \<not> valid then (BadRequest, s)
               else
                 (Success,
                  s\<lparr>mobile_devices :=
                      AList.update gate_id
                        \<lparr>m_stream_url = url,
                         m_device_name =
                           Some (case r_device_name data of None \<Rightarrow> ''Mobile Device'' | Some n \<Rightarrow> n),
                         m_registered_at = Some now, m_camera_type = ''mobile''\<rparr>
                        (mobile_devices s)\<rparr>)
           | _ \<Rightarrow> (BadRequest, s)))"

text \<open>The clean-up of lines 473-485 and 495-507.\<close>

definition cleanup :: "gate \<Rightarrow> sys \<Rightarrow> sys" where
  "cleanup g s =
     (let s1 = s\<lparr>camera_queues := AList.delete g (camera_queues s)\<rparr>;
          s2 = s1\<lparr>camera_threads := AList.delete g (camera_threads s1)\<rparr>;
          s3 = s2\<lparr>active_cameras := AList.delete g (active_cameras s2)\<rparr>;
          s4 = (case map_of (camera_captures s3) g of
                  None \<Rightarrow> s3
                | Some c \<Rightarrow> s3\<lparr>caps := (caps s3)[c := False],
                              camera_captures := AList.delete g (camera_captures s3)\<rparr>)
      in s4\<lparr>camera_last_update := AList.delete g (camera_last_update s4)\<rparr>)"

text \<open>The body run for one gate: clear the flag, join, clean up.\<close>

definition teardown :: "obs list \<Rightarrow> gate \<Rightarrow> sys \<Rightarrow> sys" where
  "teardown during g s = cleanup g (stop_worker during g s)"

fun disconnect_each :: "(gate \<Rightarrow> obs list) \<Rightarrow> gate list \<Rightarrow> sys \<Rightarrow> sys" where
  "disconnect_each during [] s = s"
| "disconnect_each during (gid # gids) s =
     disconnect_each during gids (teardown (during gid) gid s)"

text \<open>
  \<^verbatim>\<open>disconnect_camera\<close>.  The request is \<open>None\<close> when the body is not a JSON object, and
  otherwise holds the value of \<^verbatim>\<open>data.get('gate_id')\<close>.
\<close>

definition disconnect_camera :: "(gate \<Rightarrow> obs list) \<Rightarrow> string option option \<Rightarrow> sys \<Rightarrow> response \<times> sys" where
  "disconnect_camera during req s =
     (case req of
        None \<Rightarrow> (ServerError, s)
      | Some gate_id \<Rightarrow>
          if gate_id = Some ''all''
          then (Success, disconnect_each during (map fst (active_cameras s)) s)
          else
            (case gate_id of
               None \<Rightarrow> (Success, s)
             | Some g \<Rightarrow>
                 if map_of (active_cameras s) g \<noteq> None
                 then (Success, teardown (during g) g s)
                 else (Success, s)))"

section \<open>The status query\<close>

definition default_status :: "gate \<Rightarrow> sys \<Rightarrow> gate_status" where
  "default_status gate_id s =
     \<lparr>st_connected = (map_of (active_cameras s) gate_id = Some True),
      st_count = 0,
      st_status = ''disconnected'',
      st_frame = [],
      st_camera_type = (if map_of (mobile_devices s) gate_id \<noteq> None then ''mobile'' else ''webcam''),
      st_error = [],
      st_device_name =
        (case map_of (mobile_devices s) gate_id of
           None \<Rightarrow> None
         | Some m \<Rightarrow> Some (case m_device_name m of None \<Rightarrow> ''Mobile Device'' | Some n \<Rightarrow> n)),
      st_timestamp = None,
      st_is_mobile = None\<rparr>"

text \<open>Lines 523-550 for one gate: the default entry, overwritten by one drained item.\<close>

definition gate_status_of :: "time \<Rightarrow> gate \<Rightarrow> sys \<Rightarrow> gate_status \<times> sys" where
  "gate_status_of now gate_id s =
     (case map_of (camera_queues s) gate_id of
        Some (d # rest) \<Rightarrow>
          ((default_status gate_id s)
             \<lparr>st_count := q_count d,
              st_status := q_status d,
              st_frame := (case q_frame d of None \<Rightarrow> [] | Some f \<Rightarrow> f),
              st_error := (case q_error d of None \<Rightarrow> [] | Some e \<Rightarrow> e),
              st_timestamp := Some (case q_timestamp d of None \<Rightarrow> now | Some ts \<Rightarrow> ts),
              st_is_mobile := Some (case q_is_mobile d of None \<Rightarrow> False | Some b \<Rightarrow> b)\<rparr>,
           s\<lparr>camera_queues := AList.update gate_id rest (camera_queues s),
             camera_last_update := AList.update gate_id now (camera_last_update s)\<rparr>)
      | _ \<Rightarrow> (default_status gate_id s, s))"

fun status_loop :: "time \<Rightarrow> gate list \<Rightarrow> (gate, gate_status) dict \<times> sys \<Rightarrow> (gate, gate_status) dict \<times> sys" where
  "status_loop now [] acc = acc"
| "status_loop now (gate_id # gates) (status, s) =
     (if gate_id = ''Temple'' then status_loop now gates (status, s)
      else
        let (entry, s1) = gate_status_of now gate_id s
        in status_loop now gates (AList.update gate_id entry status, s1))"

definition get_camera_status :: "time \<Rightarrow> sys \<Rightarrow> (gate, gate_status) dict \<times> sys" where
  "get_camera_status now s = status_loop now (map fst GATE_CONFIG) ([], s)"

section \<open>The health monitor\<close>

text \<open>Lines 350-362: the restart of one gate's mobile camera.\<close>

definition restart_camera :: "obs list \<Rightarrow> gate \<Rightarrow> sys \<Rightarrow> sys" where
  "restart_camera during gate_id s =
     (let s1 = (if map_of (active_cameras s) gate_id \<noteq> None
                then stop_worker during gate_id s else s);
          s2 = s1\<lparr>camera_queues := AList.update gate_id [] (camera_queues s1)\<rparr>;
          s3 = s2\<lparr>active_cameras := AList.update gate_id True (active_cameras s2)\<rparr>
      in spawn gate_id ''mobile'' s3)"

text \<open>Lines 343-362 for one gate of \<^verbatim>\<open>mobile_devices\<close>.\<close>

definition check_gate :: "time \<Rightarrow> obs list \<Rightarrow> gate \<Rightarrow> sys \<Rightarrow> sys" where
  "check_gate current_time during gate_id s =
     (if map_of (active_cameras s) gate_id = Some True
         \<and> map_of (camera_queues s) gate_id = Some []
      then (case map_of (camera_last_update s) gate_id of
              None \<Rightarrow> s
            | Some last_update \<Rightarrow>
                if float_sub current_time last_update > 10 then restart_camera during gate_id s else s)
      else s)"

fun check_gates :: "time \<Rightarrow> (gate \<Rightarrow> obs list) \<Rightarrow> gate list \<Rightarrow> sys \<Rightarrow> sys" where
  "check_gates current_time during [] s = s"
| "check_gates current_time during (gate_id # gates) s =
     check_gates current_time during gates (check_gate current_time (during gate_id) gate_id s)"

text \<open>One pass of the \<^verbatim>\<open>while True\<close> loop of \<^verbatim>\<open>check_mobile_camera_health\<close>.\<close>

definition health_pass :: "time \<Rightarrow> (gate \<Rightarrow> obs list) \<Rightarrow> sys \<Rightarrow> sys" where
  "health_pass current_time during s =
     check_gates current_time during (map fst (mobile_devices s)) s"

text \<open>
  The monitor never returns; it is run here for as many passes as there are clock
  readings.
\<close>

fun check_mobile_camera_health :: "(time \<times> (gate \<Rightarrow> obs list)) list \<Rightarrow> sys \<Rightarrow> sys" where
  "check_mobile_camera_health [] s = s"
| "check_mobile_camera_health ((current_time, during) # passes) s =
     check_mobile_camera_health passes (health_pass current_time during s)"

section \<open>Executions\<close>

text \<open>
  The requests, the passes of the monitor and the steps of the worker threads, in the
  order in which they take effect.  A handler is one event; the only point at which it
  lets another thread run is its join, and there it lets the joined thread run.
\<close>

datatype event =
    Connect time "obs list" "connect_request option"
  | Register time bool "register_request option"
  | Disconnect "gate \<Rightarrow> obs list" "string option option"
  | Status time
  | Health time "gate \<Rightarrow> obs list"
  | Step tid obs

fun exec :: "event \<Rightarrow> sys \<Rightarrow> sys" where
  "exec (Connect now during req) s = snd (connect_camera now during req s)"
| "exec (Register now valid req) s = snd (register_mobile now valid req s)"
| "exec (Disconnect during req) s = snd (disconnect_camera during req s)"
| "exec (Status now) s = snd (get_camera_status now s)"
| "exec (Health now during) s = health_pass now during s"
| "exec (Step t ob) s = worker_step ob t s"

fun run_events :: "event list \<Rightarrow> sys \<Rightarrow> sys" where
  "run_events [] s = s"
| "run_events (e # es) s = run_events es (exec e s)"

text \<open>
  The event is the acquisition step of a thread whose gate is no longer a key of
  \<^verbatim>\<open>active_cameras\<close>: its session was disconnected, the join timed
  out while it was still opening its source, and it now stores its handle in
  \<^verbatim>\<open>camera_captures\<close> (line 240); its next step finds the session
  gone and deletes the entry again.
\<close>

fun late_registration :: "event \<Rightarrow> sys \<Rightarrow> bool" where
  "late_registration (Step t ob) s =
     (t < length (threads s) \<and> w_pc (threads s ! t) = Created \<and>
      map_of (active_cameras s) (w_gate (threads s ! t)) = None)"
| "late_registration e s = False"

fun no_late_registration :: "event list \<Rightarrow> sys \<Rightarrow> bool" where
  "no_late_registration [] s = True"
| "no_late_registration (e # es) s =
     (\<not> late_registration e s \<and> no_late_registration es (exec e s))"

section \<open>Properties of states and runs\<close>

text \<open>
  The thread registered for a gate in \<^verbatim>\<open>camera_threads\<close> was
  started for that gate.
\<close>

definition thread_serves :: "sys \<Rightarrow> gate \<Rightarrow> bool" where
  "thread_serves s g =
     (case map_of (camera_threads s) g of
        None \<Rightarrow> True
      | Some t \<Rightarrow> t < length (threads s) \<and> w_gate (threads s ! t) = g)"

text \<open>
  The keys of the queue, thread, capture and timestamp tables are keys of
  \<^verbatim>\<open>active_cameras\<close>, and every registered thread serves its gate.
  It holds initially and every event but a late registration keeps it
  (\<open>sessions_ok_reachable\<close> below).
\<close>

definition sessions_ok :: "sys \<Rightarrow> bool" where
  "sessions_ok s =
     (list_all (\<lambda>g. g \<in> set (map fst (active_cameras s)))
        (map fst (camera_queues s) @ map fst (camera_threads s)
           @ map fst (camera_captures s) @ map fst (camera_last_update s))
      \<and> list_all (thread_serves s) (map fst (camera_threads s)))"

text \<open>
  The gate has no queue, or its queue is empty.
\<close>

definition no_result :: "sys \<Rightarrow> gate \<Rightarrow> bool" where
  "no_result s g = (case map_of (camera_queues s) g of None \<Rightarrow> True | Some q \<Rightarrow> q = [])"

text \<open>
  The step is a pass of the loop body that reads a frame successfully: the thread is
  inside the loop, the session is active, the pass is not skipped by the rate check,
  \<^verbatim>\<open>cap.read()\<close> returns a frame, and resizing it does not raise.
\<close>

definition reads_frame :: "obs \<Rightarrow> tid \<Rightarrow> sys \<Rightarrow> bool" where
  "reads_frame ob t s \<longleftrightarrow>
     t < length (threads s) \<and> w_pc (threads s ! t) = Looping \<and>
     map_of (active_cameras s) (w_gate (threads s ! t)) = Some True \<and>
     \<not> ahead_of_target (o_time ob) (threads s ! t) \<and>
     (case o_read ob of ReadFrame f \<Rightarrow> f_resize_raises f = None | _ \<Rightarrow> False)"

fun reads_frames :: "obs list \<Rightarrow> tid \<Rightarrow> sys \<Rightarrow> bool" where
  "reads_frames [] t s = True"
| "reads_frames (ob # obs) t s = (reads_frame ob t s \<and> reads_frames obs t (worker_step ob t s))"

text \<open>
  The threads started for a gate that have not returned.
\<close>

definition live_workers :: "gate \<Rightarrow> sys \<Rightarrow> tid list" where
  "live_workers g s = [t \<leftarrow> [0..<length (threads s)]. is_alive t s \<and> w_gate (threads s ! t) = g]"

section \<open>Scenarios\<close>

text \<open>
  Closed inputs and states on which the theorems below are evaluated.
\<close>

text \<open>
  The observations of a worker whose source is the webcam index 0 and opens.
\<close>

definition camera_opens :: obs where
  "camera_opens =
     \<lparr>o_acquire_raises = None, o_index = Some 0, o_valid_url = False, o_opened = True,
      o_time = 0, o_read = ReadFailed\<rparr>"

text \<open>
  A pass of the loop at the given time in which a frame with \<open>n\<close> people is
  read.
\<close>

definition frame_seen :: "time \<Rightarrow> int \<Rightarrow> obs" where
  "frame_seen now n =
     \<lparr>o_acquire_raises = None, o_index = None, o_valid_url = False, o_opened = True,
      o_time = now,
      o_read = ReadFrame \<lparr>f_resize_raises = None, f_people = n, f_preview = Some ''jpg''\<rparr>\<rparr>"

text \<open>
  A pass of the loop at the given time in which \<^verbatim>\<open>cap.read()\<close>
  fails.
\<close>

definition read_fails :: "time \<Rightarrow> obs" where
  "read_fails now =
     \<lparr>o_acquire_raises = None, o_index = None, o_valid_url = False, o_opened = True,
      o_time = now, o_read = ReadFailed\<rparr>"

definition webcam_request :: "gate \<Rightarrow> string \<Rightarrow> connect_request" where
  "webcam_request g src =
     \<lparr>c_gate_id = Some g, c_camera_source = src, c_camera_type = None, c_stream_url = None\<rparr>"

definition mobile_request :: "gate \<Rightarrow> string \<Rightarrow> connect_request" where
  "mobile_request g url =
     \<lparr>c_gate_id = Some g, c_camera_source = [], c_camera_type = Some ''mobile'',
      c_stream_url = Some url\<rparr>"

text \<open>
  Every join times out: the joined thread makes no step while the caller waits.
\<close>

definition no_steps :: "gate \<Rightarrow> obs list" where
  "no_steps g = []"

text \<open>
  Every joined thread opens its source, sees the cleared flag and returns before the
  timeout.
\<close>

definition opens_then_returns :: "gate \<Rightarrow> obs list" where
  "opens_then_returns g = [camera_opens, camera_opens]"

text \<open>
  Gate A has been connected to webcam 0; its worker is still opening the camera.
\<close>

definition connected_A :: sys where
  "connected_A = snd (connect_camera 0 [] (Some (webcam_request ''A'' ''0'')) initial_state)"

text \<open>
  The worker of gate A has opened its camera and is inside the loop.
\<close>

definition looping_A :: sys where
  "looping_A = worker_step camera_opens 0 connected_A"

text \<open>
  The worker of gate A has read its first frame.
\<close>

definition one_frame_read :: sys where
  "one_frame_read = worker_step (frame_seen 100 7) 0 looping_A"

text \<open>
  The worker of gate A after three failed reads in a row.
\<close>

definition three_failures :: sys where
  "three_failures = camera_worker (replicate 3 (read_fails 100)) 0 looping_A"

text \<open>
  The flag of gate A has been cleared and the join has timed out.
\<close>

definition stopping_A :: sys where
  "stopping_A = stop_worker [] ''A'' looping_A"

text \<open>
  Gate A with a worker in the loop, gate B with a worker that is still opening its camera.
\<close>

definition two_gates :: sys where
  "two_gates = snd (connect_camera 5 [] (Some (webcam_request ''B'' ''1'')) looping_A)"

text \<open>
  Gate A is connected to webcam 0 and, one second later, to webcam 1.  The first worker is
  still opening its camera, so the join of the second connect times out.  Then the first
  worker opens its camera and reads two frames.
\<close>

definition two_connects :: sys where
  "two_connects =
     (let s2 = snd (connect_camera 1 [] (Some (webcam_request ''A'' ''1'')) connected_A);
          s3 = worker_step camera_opens 0 s2;
          s4 = worker_step (frame_seen 100 7) 0 s3
      in worker_step (frame_seen 101 7) 0 s4)"

text \<open>
  The same two requests, with a first worker that opens its camera, sees the cleared flag
  and returns while the second connect waits.
\<close>

definition two_connects_joined :: sys where
  "two_connects_joined =
     snd (connect_camera 1 (opens_then_returns ''A'') (Some (webcam_request ''A'' ''1'')) connected_A)"

text \<open>
  Gate A is connected at time 0 to a mobile stream that never delivers a result.
\<close>

definition stalled_mobile :: sys where
  "stalled_mobile =
     snd (connect_camera 0 [] (Some (mobile_request ''A'' ''http://phone:8080/video'')) initial_state)"

section \<open>Relations between a state and its successor\<close>

text \<open>
  What a step may change, stated once and used by the proofs of the frame properties.
\<close>

text \<open>
  Only the entries of gate \<open>g\<close> differ in the five session tables; no thread
  changes its gate.
\<close>

definition gate_frame :: "gate \<Rightarrow> sys \<Rightarrow> sys \<Rightarrow> bool" where
  "gate_frame g s s' \<longleftrightarrow>
     mobile_devices s' = mobile_devices s \<and>
     length (threads s') = length (threads s) \<and>
     (\<forall>t'. w_gate (threads s' ! t') = w_gate (threads s ! t')) \<and>
     (\<forall>g'. g' \<noteq> g \<longrightarrow>
        map_of (active_cameras s') g' = map_of (active_cameras s) g' \<and>
        map_of (camera_threads s') g' = map_of (camera_threads s) g' \<and>
        map_of (camera_queues s') g' = map_of (camera_queues s) g' \<and>
        map_of (camera_captures s') g' = map_of (camera_captures s) g' \<and>
        map_of (camera_last_update s') g' = map_of (camera_last_update s) g')"

text \<open>
  What a step of thread \<open>t\<close>, started for gate \<open>g\<close>, may change.
\<close>

definition worker_frame :: "gate \<Rightarrow> tid \<Rightarrow> sys \<Rightarrow> sys \<Rightarrow> bool" where
  "worker_frame g t s s' \<longleftrightarrow>
     active_cameras s' = active_cameras s \<and>
     camera_threads s' = camera_threads s \<and>
     camera_last_update s' = camera_last_update s \<and>
     mobile_devices s' = mobile_devices s \<and>
     length (threads s') = length (threads s) \<and>
     (\<forall>t'. w_gate (threads s' ! t') = w_gate (threads s ! t')) \<and>
     (\<forall>t'. t' \<noteq> t \<longrightarrow> threads s' ! t' = threads s ! t') \<and>
     (\<forall>g'. g' \<noteq> g \<longrightarrow> map_of (camera_queues s') g' = map_of (camera_queues s) g') \<and>
     (map_of (camera_queues s') g = None \<longleftrightarrow> map_of (camera_queues s) g = None) \<and>
     (\<forall>g'. g' \<noteq> g \<longrightarrow> map_of (camera_captures s') g' = map_of (camera_captures s) g')"

text \<open>
  Every key of the session tables is in \<open>gs\<close>, and every registered thread
  serves its gate.
\<close>

definition keyed_within :: "gate list \<Rightarrow> sys \<Rightarrow> bool" where
  "keyed_within gs s \<longleftrightarrow>
     (\<forall>k. k \<notin> set gs \<longrightarrow>
        map_of (active_cameras s) k = None \<and> map_of (camera_threads s) k = None \<and>
        map_of (camera_queues s) k = None \<and> map_of (camera_captures s) k = None \<and>
        map_of (camera_last_update s) k = None)
     \<and> (\<forall>k. thread_serves s k)"

text \<open>
  The entries of gate \<open>g\<close> that the status query reads are the same.
\<close>

definition status_frame :: "gate \<Rightarrow> sys \<Rightarrow> sys \<Rightarrow> bool" where
  "status_frame g s s' \<longleftrightarrow>
     map_of (active_cameras s') g = map_of (active_cameras s) g \<and>
     map_of (mobile_devices s') g = map_of (mobile_devices s) g \<and>
     map_of (camera_queues s') g = map_of (camera_queues s) g"

text \<open>
  The successor state is the one left by the \<^verbatim>\<open>finally\<close> block of
  thread \<open>t\<close>, possibly after one item was published.
\<close>

definition exits_through_finally :: "tid \<Rightarrow> gate \<Rightarrow> sys \<Rightarrow> sys \<Rightarrow> bool" where
  "exits_through_finally t g s s' \<longleftrightarrow>
     (\<exists>w'. w_gate w' = g \<and> (s' = finish t w' s \<or> (\<exists>item. s' = finish t w' (publish g item s))))"

text \<open>
  \<open>sessions_ok\<close>, stated on the lookups.
\<close>

definition aligned :: "sys \<Rightarrow> bool" where
  "aligned s \<longleftrightarrow>
     (\<forall>k. map_of (active_cameras s) k = None \<longrightarrow>
        map_of (camera_threads s) k = None \<and> map_of (camera_queues s) k = None \<and>
        map_of (camera_captures s) k = None \<and> map_of (camera_last_update s) k = None)
     \<and> (\<forall>k. thread_serves s k)"

section \<open>Binary64 rounding and the occupancy status\<close>

text \<open>
  Below 2^50 the spacing of binary64 numbers is at most 1/8, so every multiple of 1/8 is a
  float and rounding never crosses one.  With 0.8 rounded up by less than 2^-52 relative,
  \<^verbatim>\<open>capacity * 0.8\<close> lies within 1/40 above 4 C / 5, which no
  integer and no integer minus 1/8 separates from it.
\<close>

lemma round_half_even_lower: "\<lfloor>m\<rfloor> \<le> round_half_even m"
  by (simp add: round_half_even_def Let_def)

lemma round_half_even_upper: "round_half_even m \<le> \<lceil>m\<rceil>"
proof (cases "m = of_int \<lfloor>m\<rfloor>")
  case True
  then have "m - of_int \<lfloor>m\<rfloor> < 1 / 2" by simp
  then have "round_half_even m = \<lfloor>m\<rfloor>" by (simp add: round_half_even_def Let_def)
  then show ?thesis by (simp add: floor_le_ceiling)
next
  case False
  then have "\<lceil>m\<rceil> = \<lfloor>m\<rfloor> + 1" by (simp add: ceiling_altdef)
  then show ?thesis by (simp add: round_half_even_def Let_def)
qed

lemma nat_floor_bound:
  fixes x :: rat
  assumes "0 \<le> x" "x < of_nat n"
  shows "nat \<lfloor>x\<rfloor> < n"
proof -
  have "\<lfloor>x\<rfloor> < int n" using assms(2) by (simp add: floor_less_iff)
  moreover have "0 \<le> \<lfloor>x\<rfloor>" using assms(1) by simp
  ultimately show ?thesis by linarith
qed

lemma binade_le:
  assumes "0 < x" "x < 2 ^ 50"
  shows "binade x \<le> 49"
proof (cases "1 \<le> x")
  case True
  have "x < of_nat (2 ^ 50)" using assms(2) by simp
  moreover have "0 \<le> x" using assms(1) by simp
  ultimately have "nat \<lfloor>x\<rfloor> < 2 ^ 50" by (rule nat_floor_bound [rotated])
  then have "floorlog 2 (nat \<lfloor>x\<rfloor>) \<le> 50" by (simp add: floorlog_le_iff)
  with True show ?thesis by (simp add: binade_def)
next
  case False
  then show ?thesis by (simp add: binade_def)
qed

lemma ulp_fine:
  assumes "0 < x" "x < 2 ^ 50"
  shows "\<exists>j. ulp x = 1 / (8 * 2 ^ j)"
proof -
  have e: "binade x \<le> 49" using assms by (rule binade_le)
  then have "ulp x = 1 / 2 ^ nat (52 - binade x)" by (simp add: ulp_def Let_def)
  moreover have "nat (52 - binade x) = 3 + nat (49 - binade x)" using e by simp
  ultimately have "ulp x = 1 / (8 * 2 ^ nat (49 - binade x))" by (simp add: power_add)
  then show ?thesis ..
qed

lemma round_double_sandwich:
  assumes x: "0 < x" "x < 2 ^ 50"
  shows "of_int k / 8 \<le> x \<Longrightarrow> of_int k / 8 \<le> round_double x"
    and "x \<le> of_int k / 8 \<Longrightarrow> round_double x \<le> of_int k / 8"
proof -
  obtain j :: nat where q: "ulp x = 1 / (8 * 2 ^ j)" using ulp_fine [OF x] by blast
  let ?m = "x * (8 * 2 ^ j)"
  let ?Y = "k * 2 ^ j"
  have rd: "round_double x = of_int (round_half_even ?m) / (8 * 2 ^ j)"
    using x(1) q by (simp add: round_double_def Let_def)
  have pos: "(0::rat) < 8 * 2 ^ j" by simp
  have Y: "of_int k / 8 = (of_int ?Y :: rat) / (8 * 2 ^ j)" by simp
  {
    assume "of_int k / 8 \<le> x"
    then have "(of_int ?Y :: rat) \<le> ?m" using pos by (simp add: field_simps)
    then have "?Y \<le> \<lfloor>?m\<rfloor>" by (simp add: le_floor_iff)
    then have "?Y \<le> round_half_even ?m" using round_half_even_lower [of ?m] by linarith
    then have "(of_int ?Y :: rat) \<le> of_int (round_half_even ?m)" by (simp only: of_int_le_iff)
    then show "of_int k / 8 \<le> round_double x"
      unfolding rd Y using pos by (simp only: divide_le_cancel) simp
  }
  {
    assume "x \<le> of_int k / 8"
    then have "?m \<le> (of_int ?Y :: rat)" using pos by (simp add: field_simps)
    then have "\<lceil>?m\<rceil> \<le> ?Y" by (simp add: ceiling_le_iff)
    then have "round_half_even ?m \<le> ?Y" using round_half_even_upper [of ?m] by linarith
    then have "(of_int (round_half_even ?m) :: rat) \<le> of_int ?Y" by (simp only: of_int_le_iff)
    then show "round_double x \<le> of_int k / 8"
      unfolding rd Y using pos by (simp only: divide_le_cancel) simp
  }
qed

lemma round_double_exact:
  assumes "0 < x" "x < 2 ^ 50" "x = of_int k / 8"
  shows "round_double x = x"
proof -
  have le: "of_int k / 8 \<le> x" and ge: "x \<le> of_int k / 8"
    by (simp_all only: assms(3) order_refl)
  have "of_int k / 8 \<le> round_double x"
    by (rule round_double_sandwich(1) [OF assms(1,2) le])
  moreover have "round_double x \<le> of_int k / 8"
    by (rule round_double_sandwich(2) [OF assms(1,2) ge])
  ultimately have "round_double x = of_int k / 8" by linarith
  then show ?thesis by (simp only: assms(3))
qed

lemma float_of_int_exact:
  assumes "0 < c" "c < 2 ^ 49"
  shows "float_of_int c = of_int c"
proof -
  have "(of_int c :: rat) < of_int (2 ^ 49)" using assms(2) by (simp only: of_int_less_iff)
  then have b: "(of_int c :: rat) < 2 ^ 50" by simp
  have p: "(0::rat) < of_int c" using assms(1) by simp
  have "(of_int c :: rat) = of_int (8 * c) / 8" by simp
  from round_double_exact [OF p b this] show ?thesis by (simp add: float_of_int_def)
qed

lemma lit_0_8_value: "lit_0_8 = 3602879701896397 / 4503599627370496"
  by code_simp

lemma warning_threshold:
  assumes c: "0 < c" "c < 2 ^ 49"
  shows "of_int n > float_mul (float_of_int c) lit_0_8 \<longleftrightarrow> 4 * c < 5 * n"
proof -
  let ?x = "of_int c * (3602879701896397 / 4503599627370496) :: rat"
  have fm: "float_mul (float_of_int c) lit_0_8 = round_double ?x"
    by (simp add: float_mul_def float_of_int_exact [OF c] lit_0_8_value)
  have cr: "(0::rat) < of_int c" using c(1) by simp
  have "(of_int c :: rat) < of_int (2 ^ 49)" using c(2) by (simp only: of_int_less_iff)
  then have cb: "(of_int c :: rat) < 562949953421312" by simp
  have xpos: "0 < ?x" using cr by simp
  have xlt: "?x < 2 ^ 50" using cr cb by simp
  have xlow: "4 * of_int c / 5 \<le> ?x" using cr by simp
  have xup: "?x \<le> 4 * of_int c / 5 + 1 / 40" using cb by simp
  show ?thesis
  proof (cases "4 * c < 5 * n")
    case True
    then have "4 * c + 1 \<le> 5 * n" by simp
    then have "(of_int (4 * c + 1) :: rat) \<le> of_int (5 * n)" by (simp only: of_int_le_iff)
    then have "4 * of_int c / 5 + 1 / 40 \<le> (of_int (8 * n - 1) :: rat) / 8" by simp
    with xup have "?x \<le> of_int (8 * n - 1) / 8" by linarith
    from round_double_sandwich(2) [OF xpos xlt this]
    have "round_double ?x < of_int n" by simp
    with True fm show ?thesis by simp
  next
    case False
    then have "5 * n \<le> 4 * c" by simp
    then have "(of_int (5 * n) :: rat) \<le> of_int (4 * c)" by (simp only: of_int_le_iff)
    then have "(of_int (8 * n) :: rat) / 8 \<le> 4 * of_int c / 5" by simp
    with xlow have "of_int (8 * n) / 8 \<le> ?x" by linarith
    from round_double_sandwich(1) [OF xpos xlt this]
    have "of_int n \<le> round_double ?x" by simp
    with False fm show ?thesis by simp
  qed
qed

lemma configured_capacities:
  "map_of GATE_CONFIG g = Some cfg \<Longrightarrow> 0 < capacity cfg \<and> capacity cfg < 2 ^ 49"
  by (auto simp add: GATE_CONFIG_def split: if_splits)



section \<open>What a worker and a disconnect may change\<close>

lemma worker_frame_refl: "worker_frame g t s s"
  by (simp add: worker_frame_def)

lemma worker_frame_trans:
  "worker_frame g t s s1 \<Longrightarrow> worker_frame g t s1 s2 \<Longrightarrow> worker_frame g t s s2"
  by (simp add: worker_frame_def)

lemma frame_publish: "worker_frame g t s (publish g item s)"
  by (simp add: publish_def worker_frame_def update_conv' split: option.splits)

lemma frame_finally: "worker_frame g t s (finally_block g s)"
  by (simp add: finally_block_def worker_frame_def delete_conv' split: option.splits)

lemma gate_list_update:
  "w_gate w = w_gate (xs ! t) \<Longrightarrow> w_gate (xs[t := w] ! t') = w_gate (xs ! t')"
  by (cases "t < length xs"; cases "t' = t") (simp_all add: list_update_beyond)

lemma frame_set_worker:
  "w_gate w = w_gate (threads s ! t) \<Longrightarrow> worker_frame g t s (set_worker t w s)"
  by (simp add: set_worker_def worker_frame_def gate_list_update)

lemma publish_threads [simp]: "threads (publish g item s) = threads s"
  by (simp add: publish_def split: option.splits)

lemma finally_threads [simp]: "threads (finally_block g s) = threads s"
  by (simp add: finally_block_def split: option.splits)

lemma frame_finish:
  assumes "w_gate w = g" "w_gate (threads s ! t) = g"
  shows "worker_frame g t s (finish t w s)"
  unfolding finish_def
  by (rule worker_frame_trans [OF _ frame_set_worker])
     (simp_all add: assms frame_finally)

lemma frame_except:
  assumes "w_gate w = g" "w_gate (threads s ! t) = g"
  shows "worker_frame g t s (except_block msg t w s)"
  unfolding except_block_def
  by (rule worker_frame_trans [OF _ frame_finish])
     (simp_all add: assms frame_publish)

lemma frame_open_failed:
  assumes "w_gate w = g" "w_gate (threads s ! t) = g"
  shows "worker_frame g t s (open_failed msg t w s)"
  unfolding open_failed_def
  by (rule worker_frame_trans [OF _ frame_finish])
     (simp_all add: assms frame_publish)

lemma frame_new_capture: "worker_frame g t s (s\<lparr>caps := cs\<rparr>)"
  by (simp add: worker_frame_def)

lemma frame_register: "worker_frame g t s (s\<lparr>camera_captures := AList.update g c (camera_captures s)\<rparr>)"
  by (simp add: worker_frame_def update_conv')

lemma frame_open_capture:
  assumes "w_gate w = g" "w_gate (threads s ! t) = g"
  shows "worker_frame g t s (open_capture mobile msg ob t w s)"
proof (cases "o_opened ob")
  case True
  let ?s1 = "s\<lparr>caps := caps s @ [True]\<rparr>"
  let ?s2 = "?s1\<lparr>camera_captures := AList.update g (length (caps s)) (camera_captures ?s1)\<rparr>"
  have "worker_frame g t s ?s2"
    by (rule worker_frame_trans [OF frame_new_capture frame_register])
  moreover have "worker_frame g t ?s2 (set_worker t
      (w\<lparr>w_pc := Looping, w_cap := Some (length (caps s)), w_is_mobile := mobile, w_retry_count := 0\<rparr>) ?s2)"
    by (rule frame_set_worker) (simp add: assms)
  ultimately show ?thesis
    using True assms(1) by (simp add: open_capture_def Let_def worker_frame_trans)
next
  case False
  have "worker_frame g t (s\<lparr>caps := caps s @ [False]\<rparr>)
          (open_failed msg t (w\<lparr>w_cap := Some (length (caps s))\<rparr>) (s\<lparr>caps := caps s @ [False]\<rparr>))"
    by (rule frame_open_failed) (simp_all add: assms)
  with frame_new_capture [of g t s "caps s @ [False]"] show ?thesis
    using False by (simp add: open_capture_def Let_def worker_frame_trans)
qed

lemma frame_acquire:
  assumes "w_gate w = g" "w_gate (threads s ! t) = g"
  shows "worker_frame g t s (acquire ob t w s)"
  by (simp add: acquire_def frame_except frame_open_capture frame_open_failed assms
      split: option.splits)

lemma frame_process_frame:
  assumes "w_gate w = g" "w_gate (threads s ! t) = g"
  shows "worker_frame g t s (process_frame f ct t w s)"
proof -
  have a: "worker_frame g t s (set_worker t w' (publish g item s))" if "w_gate w' = g" for w' item
    by (rule worker_frame_trans [OF frame_publish frame_set_worker]) (simp add: that assms)
  show ?thesis
    using assms
    by (simp add: process_frame_def Let_def frame_except frame_set_worker a split: option.splits)
qed

lemma frame_iterate:
  assumes "w_gate w = g" "w_gate (threads s ! t) = g"
  shows "worker_frame g t s (iterate ob t w s)"
proof -
  have a: "worker_frame g t s (finish t w' (publish g item s))" if "w_gate w' = g" for w' item
    by (rule worker_frame_trans [OF frame_publish frame_finish]) (simp_all add: that assms)
  show ?thesis
    using assms
    by (simp add: iterate_def Let_def frame_except frame_set_worker frame_finish frame_process_frame
        worker_frame_refl a split: read_result.splits)
qed

lemma frame_worker_step: "worker_frame (w_gate (threads s ! t)) t s (worker_step ob t s)"
  by (simp add: worker_step_def frame_acquire frame_iterate worker_frame_refl split: pc.splits)

lemma frame_camera_worker: "worker_frame (w_gate (threads s ! t)) t s (camera_worker obs t s)"
proof (induction obs arbitrary: s)
  case Nil
  show ?case by (simp add: worker_frame_refl)
next
  case (Cons ob obs)
  have g: "w_gate (threads (worker_step ob t s) ! t) = w_gate (threads s ! t)"
    using frame_worker_step [of s t ob] by (simp add: worker_frame_def)
  from Cons [of "worker_step ob t s"] frame_worker_step [of s t ob] show ?case
    by (simp add: g worker_frame_trans)
qed

lemma worker_frame_gate_frame: "worker_frame g t s s' \<Longrightarrow> gate_frame g s s'"
  by (simp add: worker_frame_def gate_frame_def)

lemma gate_frame_refl: "gate_frame g s s"
  by (simp add: gate_frame_def)

lemma gate_frame_trans: "gate_frame g s s1 \<Longrightarrow> gate_frame g s1 s2 \<Longrightarrow> gate_frame g s s2"
  by (simp add: gate_frame_def)

lemma join_thread_frame:
  assumes "thread_serves s g"
  shows "gate_frame g s (join_thread during g s)"
proof (cases "map_of (camera_threads s) g")
  case None
  then show ?thesis by (simp add: join_thread_def gate_frame_refl)
next
  case (Some t)
  with assms have "w_gate (threads s ! t) = g" by (simp add: thread_serves_def)
  with frame_camera_worker [of s t during] have "gate_frame g s (camera_worker during t s)"
    by (simp add: worker_frame_gate_frame)
  with Some show ?thesis by (simp add: join_thread_def gate_frame_refl)
qed

lemma stop_worker_frame:
  assumes "thread_serves s g"
  shows "gate_frame g s (stop_worker during g s)"
proof -
  let ?s0 = "s\<lparr>active_cameras := AList.update g False (active_cameras s)\<rparr>"
  have "gate_frame g s ?s0" by (simp add: gate_frame_def update_conv')
  moreover have "thread_serves ?s0 g"
    using assms by (simp add: thread_serves_def split: option.splits)
  then have "gate_frame g ?s0 (join_thread during g ?s0)" by (rule join_thread_frame)
  ultimately show ?thesis unfolding stop_worker_def by (rule gate_frame_trans)
qed

lemma cleanup_frame: "gate_frame g s (cleanup g s)"
  by (simp add: cleanup_def gate_frame_def Let_def split: option.splits)

lemma cleanup_removes:
  "map_of (active_cameras (cleanup g s)) g = None"
  "map_of (camera_threads (cleanup g s)) g = None"
  "map_of (camera_queues (cleanup g s)) g = None"
  "map_of (camera_captures (cleanup g s)) g = None"
  "map_of (camera_last_update (cleanup g s)) g = None"
  by (simp_all add: cleanup_def Let_def delete_conv' split: option.splits)

lemma teardown_frame:
  assumes "thread_serves s g"
  shows "gate_frame g s (teardown during g s)"
  unfolding teardown_def
  by (rule gate_frame_trans [OF stop_worker_frame [OF assms] cleanup_frame])

lemma teardown_removes:
  "map_of (active_cameras (teardown during g s)) g = None"
  "map_of (camera_threads (teardown during g s)) g = None"
  "map_of (camera_queues (teardown during g s)) g = None"
  "map_of (camera_captures (teardown during g s)) g = None"
  "map_of (camera_last_update (teardown during g s)) g = None"
  by (simp_all add: teardown_def cleanup_removes)

lemma map_of_all_None: "(\<forall>k. map_of al k = None) \<longleftrightarrow> al = []"
  by (cases al) (auto simp: fun_eq_iff)

lemma thread_serves_frame:
  assumes "gate_frame g s s'" "g' \<noteq> g" "thread_serves s g'"
  shows "thread_serves s' g'"
  using assms by (simp add: gate_frame_def thread_serves_def split: option.splits)

lemma keyed_within_teardown:
  assumes "keyed_within (g # gs) s"
  shows "keyed_within gs (teardown during g s)"
proof -
  have ts: "thread_serves s k" for k using assms by (simp add: keyed_within_def)
  have fr: "gate_frame g s (teardown during g s)" by (rule teardown_frame [OF ts])
  have "thread_serves (teardown during g s) k" for k
  proof (cases "k = g")
    case True
    then show ?thesis by (simp add: thread_serves_def teardown_removes)
  next
    case False
    then show ?thesis by (rule thread_serves_frame [OF fr _ ts])
  qed
  moreover have "map_of (active_cameras (teardown during g s)) k = None \<and>
        map_of (camera_threads (teardown during g s)) k = None \<and>
        map_of (camera_queues (teardown during g s)) k = None \<and>
        map_of (camera_captures (teardown during g s)) k = None \<and>
        map_of (camera_last_update (teardown during g s)) k = None" if "k \<notin> set gs" for k
  proof (cases "k = g")
    case True
    then show ?thesis by (simp add: teardown_removes)
  next
    case False
    with that have "k \<notin> set (g # gs)" by simp
    with assms have "map_of (active_cameras s) k = None \<and> map_of (camera_threads s) k = None \<and>
        map_of (camera_queues s) k = None \<and> map_of (camera_captures s) k = None \<and>
        map_of (camera_last_update s) k = None"
      unfolding keyed_within_def by blast
    with fr False show ?thesis by (simp add: gate_frame_def)
  qed
  ultimately show ?thesis unfolding keyed_within_def by blast
qed

lemma disconnect_each_empties:
  assumes "keyed_within gs s"
  shows "keyed_within [] (disconnect_each during gs s)"
  using assms
proof (induction gs arbitrary: s)
  case Nil
  then show ?case by simp
next
  case (Cons g gs)
  from Cons.prems have "keyed_within gs (teardown (during g) g s)"
    by (rule keyed_within_teardown)
  then show ?case by (simp add: Cons.IH)
qed

lemma keyed_within_Nil:
  assumes "keyed_within [] s"
  shows "active_cameras s = [] \<and> camera_threads s = [] \<and> camera_queues s = [] \<and>
         camera_captures s = [] \<and> camera_last_update s = []"
  using assms by (simp add: keyed_within_def flip: map_of_all_None)

lemma map_of_None_keys: "map_of al k = None \<longleftrightarrow> k \<notin> set (map fst al)"
  by (simp add: map_of_eq_None_iff)

lemma thread_serves_absent: "map_of (camera_threads s) k = None \<Longrightarrow> thread_serves s k"
  by (simp add: thread_serves_def)

lemma sessions_ok_keyed:
  assumes "sessions_ok s"
  shows "keyed_within (map fst (active_cameras s)) s"
proof -
  have al: "\<forall>g \<in> set (map fst (camera_queues s)) \<union> set (map fst (camera_threads s))
              \<union> set (map fst (camera_captures s)) \<union> set (map fst (camera_last_update s)).
            g \<in> set (map fst (active_cameras s))"
    using assms by (simp add: sessions_ok_def list_all_iff)
  have th: "\<forall>g \<in> set (map fst (camera_threads s)). thread_serves s g"
    using assms by (simp add: sessions_ok_def list_all_iff)
  have "thread_serves s k" for k
  proof (cases "map_of (camera_threads s) k")
    case None
    then show ?thesis by (rule thread_serves_absent)
  next
    case (Some t)
    then have "k \<in> set (map fst (camera_threads s))"
      by (metis map_of_None_keys option.distinct(1))
    with th show ?thesis by blast
  qed
  moreover have "map_of (active_cameras s) k = None \<and> map_of (camera_threads s) k = None \<and>
        map_of (camera_queues s) k = None \<and> map_of (camera_captures s) k = None \<and>
        map_of (camera_last_update s) k = None" if "k \<notin> set (map fst (active_cameras s))" for k
    using that al unfolding map_of_None_keys by blast
  ultimately show ?thesis unfolding keyed_within_def by blast
qed



text \<open>
  C10.  Disconnecting one gate (a gate id other than all) leaves the active flag, thread,
  queue, capture handle and timestamp of every other gate as they were, and leaves
  \<^verbatim>\<open>mobile_devices\<close> as it was, the registration of the
  disconnected gate included.
\<close>

theorem disconnect_one_frame:
  assumes "gate_id \<noteq> ''all''" "thread_serves s gate_id" "g \<noteq> gate_id"
  shows "map_of (active_cameras (snd (disconnect_camera during (Some (Some gate_id)) s))) g
           = map_of (active_cameras s) g \<and>
         map_of (camera_threads (snd (disconnect_camera during (Some (Some gate_id)) s))) g
           = map_of (camera_threads s) g \<and>
         map_of (camera_queues (snd (disconnect_camera during (Some (Some gate_id)) s))) g
           = map_of (camera_queues s) g \<and>
         map_of (camera_captures (snd (disconnect_camera during (Some (Some gate_id)) s))) g
           = map_of (camera_captures s) g \<and>
         map_of (camera_last_update (snd (disconnect_camera during (Some (Some gate_id)) s))) g
           = map_of (camera_last_update s) g \<and>
         mobile_devices (snd (disconnect_camera during (Some (Some gate_id)) s)) = mobile_devices s"
proof -
  have "gate_frame gate_id s (snd (disconnect_camera during (Some (Some gate_id)) s))"
    using assms(1) teardown_frame [OF assms(2), of "during gate_id"]
    by (simp add: disconnect_camera_def gate_frame_refl)
  with assms(3) show ?thesis by (simp add: gate_frame_def)
qed

theorem disconnect_one_frame_witness:
  "''A'' \<noteq> ''all'' \<and> thread_serves two_gates ''A'' \<and> ''B'' \<noteq> ''A''
   \<and> map_of (active_cameras two_gates) ''B'' = Some True
   \<and> map_of (active_cameras (snd (disconnect_camera no_steps (Some (Some ''A'')) two_gates))) ''A'' = None
   \<and> map_of (active_cameras (snd (disconnect_camera no_steps (Some (Some ''A'')) two_gates))) ''B''
        = map_of (active_cameras two_gates) ''B''
   \<and> map_of (camera_threads (snd (disconnect_camera no_steps (Some (Some ''A'')) two_gates))) ''B''
        = map_of (camera_threads two_gates) ''B''
   \<and> map_of (camera_queues (snd (disconnect_camera no_steps (Some (Some ''A'')) two_gates))) ''B''
        = map_of (camera_queues two_gates) ''B''
   \<and> map_of (camera_captures (snd (disconnect_camera no_steps (Some (Some ''A'')) two_gates))) ''B''
        = map_of (camera_captures two_gates) ''B''
   \<and> map_of (camera_last_update (snd (disconnect_camera no_steps (Some (Some ''A'')) two_gates))) ''B''
        = map_of (camera_last_update two_gates) ''B''
   \<and> mobile_devices (snd (disconnect_camera no_steps (Some (Some ''A'')) two_gates))
        = mobile_devices two_gates"
proof -
  have h1: "''A'' \<noteq> ''all''" by simp
  have h2: "thread_serves two_gates ''A''" by code_simp
  have h3: "''B'' \<noteq> ''A''" by simp
  have a: "map_of (active_cameras two_gates) ''B'' = Some True" by code_simp
  have b: "map_of (active_cameras (snd (disconnect_camera no_steps (Some (Some ''A'')) two_gates))) ''A'' = None"
    by code_simp
  from disconnect_one_frame [OF h1 h2 h3, of no_steps] show ?thesis using h1 h2 h3 a b by blast
qed

section \<open>The status query\<close>

lemma status_loop_keys:
  "map fst (fst (status_loop now gs (st, s))) =
     foldl (\<lambda>ks g. if g \<in> set ks then ks else ks @ [g]) (map fst st) (removeAll ''Temple'' gs)"
proof (induction gs arbitrary: st s)
  case Nil
  show ?case by simp
next
  case (Cons g gs)
  show ?case
    by (simp add: Cons.IH update_keys split: prod.splits)
qed

text \<open>
  C9.  Temple is a key of \<^verbatim>\<open>GATE_CONFIG\<close>, and the answer of the
  status query has, in every state, one entry for each configured gate except Temple.
\<close>

theorem status_skips_temple:
  "''Temple'' \<in> set (map fst GATE_CONFIG) \<and>
   map fst (fst (get_camera_status now s)) = removeAll ''Temple'' (map fst GATE_CONFIG)"
  by (simp add: get_camera_status_def status_loop_keys) (simp add: GATE_CONFIG_def)

theorem status_skips_temple_witness:
  "''Temple'' \<in> set (map fst GATE_CONFIG) \<and>
   map fst (fst (get_camera_status 0 initial_state)) = removeAll ''Temple'' (map fst GATE_CONFIG)"
  by (rule status_skips_temple [of 0 initial_state])

lemma gate_status_of_other:
  "g \<noteq> g' \<Longrightarrow> status_frame g s (snd (gate_status_of now g' s))"
  by (simp add: gate_status_of_def status_frame_def update_conv' split: option.splits list.splits)

lemma gate_status_of_quiet:
  "no_result s g \<Longrightarrow> gate_status_of now g s = (default_status g s, s)"
  by (simp add: gate_status_of_def no_result_def split: option.splits list.splits)

lemma status_loop_absent:
  "g \<notin> set gs \<Longrightarrow>
   map_of (fst (status_loop now gs (st, s))) g = map_of st g \<and>
   status_frame g s (snd (status_loop now gs (st, s)))"
proof (induction gs arbitrary: st s)
  case Nil
  show ?case by (simp add: status_frame_def)
next
  case (Cons g' gs)
  then have ne: "g \<noteq> g'" and nin: "g \<notin> set gs" by auto
  show ?case
  proof (cases "g' = ''Temple''")
    case True
    then show ?thesis using Cons.IH [OF nin] by simp
  next
    case False
    obtain e s1 where gs: "gate_status_of now g' s = (e, s1)" by (cases "gate_status_of now g' s")
    have f1: "status_frame g s s1" using gate_status_of_other [OF ne, of s now] gs by simp
    from Cons.IH [OF nin, of "AList.update g' e st" s1] f1 ne False gs
    show ?thesis by (simp add: update_conv' status_frame_def)
  qed
qed

lemma default_status_frame:
  "status_frame g s s' \<Longrightarrow> default_status g s' = default_status g s"
  by (simp add: default_status_def status_frame_def)

lemma no_result_frame: "status_frame g s s' \<Longrightarrow> no_result s' g = no_result s g"
  by (simp add: no_result_def status_frame_def)

lemma status_loop_Temple:
  "status_loop now (''Temple'' # gs) (st, s) = status_loop now gs (st, s)"
  by simp

lemma status_loop_step:
  "g' \<noteq> ''Temple'' \<Longrightarrow>
   status_loop now (g' # gs) (st, s) =
     status_loop now gs
       (AList.update g' (fst (gate_status_of now g' s)) st, snd (gate_status_of now g' s))"
  by (simp add: case_prod_beta)

lemma status_loop_quiet:
  assumes "g \<in> set gs" "g \<noteq> ''Temple''" "no_result s g"
  shows "map_of (fst (status_loop now gs (st, s))) g = Some (default_status g s) \<and>
         status_frame g s (snd (status_loop now gs (st, s)))"
  using assms
proof (induction gs arbitrary: st s)
  case Nil
  then show ?case by simp
next
  case (Cons g' gs)
  show ?case
  proof (cases "g' = ''Temple''")
    case True
    with Cons.prems have "g \<in> set gs" by auto
    from Cons.IH [OF this Cons.prems(2,3), of st] show ?thesis
      unfolding True status_loop_Temple .
  next
    case nt: False
    let ?e = "fst (gate_status_of now g' s)"
    let ?s1 = "snd (gate_status_of now g' s)"
    let ?st1 = "AList.update g' ?e st"
    note step = status_loop_step [OF nt, of now gs st s]
    show ?thesis
    proof (cases "g = g'")
      case True
      have q: "gate_status_of now g' s = (default_status g' s, s)"
        using Cons.prems(3) unfolding True by (rule gate_status_of_quiet)
      show ?thesis
      proof (cases "g \<in> set gs")
        case in_rest: True
        from Cons.IH [OF in_rest Cons.prems(2,3), of ?st1]
        show ?thesis unfolding step by (simp add: q)
      next
        case False
        from status_loop_absent [OF False, of now ?st1 ?s1]
        show ?thesis unfolding step by (simp add: q True update_conv')
      qed
    next
      case False
      with Cons.prems(1) have in_rest: "g \<in> set gs" by simp
      have f1: "status_frame g s ?s1" by (rule gate_status_of_other [OF False])
      then have nr: "no_result ?s1 g" using Cons.prems(3) by (simp add: no_result_frame)
      have d: "default_status g ?s1 = default_status g s" by (rule default_status_frame [OF f1])
      from Cons.IH [OF in_rest Cons.prems(2) nr, of ?st1]
      have "map_of (fst (status_loop now gs (?st1, ?s1))) g = Some (default_status g s)"
        and "status_frame g ?s1 (snd (status_loop now gs (?st1, ?s1)))"
        by (simp_all only: d)
      with f1 show ?thesis unfolding step by (simp add: status_frame_def)
    qed
  qed
qed

text \<open>
  The gate Temple is configured and was never connected, and the gate Z is unknown; the
  answer of the status query has no entry for either, so no count, status, preview or
  error is returned for them.
\<close>

theorem status_unconnected_gate_counterexample:
  "map_of GATE_CONFIG ''Temple'' \<noteq> None
   \<and> map_of (active_cameras initial_state) ''Temple'' = None
   \<and> map_of (camera_queues initial_state) ''Temple'' = None
   \<and> map_of (fst (get_camera_status 0 initial_state)) ''Temple'' = None
   \<and> map_of (fst (get_camera_status 0 initial_state)) ''Z'' = None"
  by code_simp

text \<open>
  C7, amended.  For every configured gate other than Temple that has no queue or an empty
  queue, the status query returns count 0, status disconnected, an empty preview and an
  empty error; the gate still has no result afterwards, and the next query returns the
  same entry.
\<close>

theorem status_of_silent_gate:
  assumes "g \<in> set (map fst GATE_CONFIG)" "g \<noteq> ''Temple''" "no_result s g"
  shows "\<exists>e. map_of (fst (get_camera_status now s)) g = Some e \<and>
           st_count e = 0 \<and> st_status e = ''disconnected'' \<and> st_frame e = [] \<and> st_error e = [] \<and>
           no_result (snd (get_camera_status now s)) g \<and>
           map_of (fst (get_camera_status now' (snd (get_camera_status now s)))) g = Some e"
proof -
  let ?s1 = "snd (get_camera_status now s)"
  from status_loop_quiet [OF assms, of now "[]"]
  have r1: "map_of (fst (get_camera_status now s)) g = Some (default_status g s)"
    and f1: "status_frame g s ?s1"
    by (simp_all add: get_camera_status_def)
  from f1 assms(3) have nr: "no_result ?s1 g" by (simp add: no_result_frame)
  from status_loop_quiet [OF assms(1,2) nr, of now' "[]"]
  have "map_of (fst (get_camera_status now' ?s1)) g = Some (default_status g ?s1)"
    by (simp add: get_camera_status_def)
  with f1 have r2: "map_of (fst (get_camera_status now' ?s1)) g = Some (default_status g s)"
    by (simp add: default_status_frame)
  from r1 r2 nr show ?thesis by (simp add: default_status_def)
qed

theorem status_of_silent_gate_witness:
  "''A'' \<in> set (map fst GATE_CONFIG) \<and> ''A'' \<noteq> ''Temple'' \<and> no_result initial_state ''A''
   \<and> (\<exists>e. map_of (fst (get_camera_status 0 initial_state)) ''A'' = Some e \<and>
           st_count e = 0 \<and> st_status e = ''disconnected'' \<and> st_frame e = [] \<and> st_error e = [] \<and>
           no_result (snd (get_camera_status 0 initial_state)) ''A'' \<and>
           map_of (fst (get_camera_status 1 (snd (get_camera_status 0 initial_state)))) ''A'' = Some e)"
proof -
  have h1: "''A'' \<in> set (map fst GATE_CONFIG)" by code_simp
  have h2: "''A'' \<noteq> ''Temple''" by simp
  have h3: "no_result initial_state ''A''" by code_simp
  from status_of_silent_gate [OF h1 h2 h3, of 0 1] show ?thesis using h1 h2 h3 by blast
qed

section \<open>Read failures and retries\<close>

lemma set_worker_fields [simp]:
  "active_cameras (set_worker t w s) = active_cameras s"
  "camera_queues (set_worker t w s) = camera_queues s"
  "camera_captures (set_worker t w s) = camera_captures s"
  "caps (set_worker t w s) = caps s"
  "length (threads (set_worker t w s)) = length (threads s)"
  "t < length (threads s) \<Longrightarrow> threads (set_worker t w s) ! t = w"
  by (simp_all add: set_worker_def)

lemma set_worker_twice [simp]: "set_worker t w' (set_worker t w s) = set_worker t w' s"
  by (simp add: set_worker_def)

lemma failed_step:
  assumes "t < length (threads s)" "w_pc (threads s ! t) = Looping"
    "map_of (active_cameras s) (w_gate (threads s ! t)) = Some True"
    "o_read ob = ReadFailed" "w_retry_count (threads s ! t) < max_retries"
    "\<not> ahead_of_target (o_time ob) (threads s ! t)"
  shows "worker_step ob t s =
           set_worker t ((threads s ! t)\<lparr>w_retry_count := Suc (w_retry_count (threads s ! t))\<rparr>) s"
  using assms by (simp add: worker_step_def iterate_def Let_def)

lemma throttled_step:
  assumes "t < length (threads s)" "w_pc (threads s ! t) = Looping"
    "map_of (active_cameras s) (w_gate (threads s ! t)) = Some True"
    "ahead_of_target (o_time ob) (threads s ! t)"
  shows "worker_step ob t s = s"
  using assms by (simp add: worker_step_def iterate_def Let_def)

lemma failed_reads_keep_looping:
  assumes "t < length (threads s)" "w_pc (threads s ! t) = Looping"
    "map_of (active_cameras s) (w_gate (threads s ! t)) = Some True"
    "\<forall>ob \<in> set obs. o_read ob = ReadFailed"
    "w_retry_count (threads s ! t) + length obs \<le> max_retries"
  shows "\<exists>r. camera_worker obs t s = set_worker t ((threads s ! t)\<lparr>w_retry_count := r\<rparr>) s"
  using assms
proof (induction obs arbitrary: s)
  case Nil
  have "set_worker t ((threads s ! t)\<lparr>w_retry_count := w_retry_count (threads s ! t)\<rparr>) s = s"
    by (simp add: set_worker_def)
  then show ?case by (metis camera_worker.simps(1))
next
  case (Cons ob obs)
  let ?w = "threads s ! t"
  show ?case
  proof (cases "ahead_of_target (o_time ob) ?w")
    case True
    then have st: "worker_step ob t s = s" using Cons.prems by (simp add: throttled_step)
    from Cons.IH [of s] Cons.prems show ?thesis by (simp add: st)
  next
    case False
    let ?w1 = "?w\<lparr>w_retry_count := Suc (w_retry_count ?w)\<rparr>"
    let ?s1 = "set_worker t ?w1 s"
    have st: "worker_step ob t s = ?s1" using Cons.prems False by (simp add: failed_step)
    have "\<exists>r. camera_worker obs t ?s1 = set_worker t ((threads ?s1 ! t)\<lparr>w_retry_count := r\<rparr>) ?s1"
      using Cons.prems by (intro Cons.IH) simp_all
    then obtain r where "camera_worker obs t ?s1 = set_worker t ((threads ?s1 ! t)\<lparr>w_retry_count := r\<rparr>) ?s1"
      by blast
    then have "camera_worker (ob # obs) t s = set_worker t (?w\<lparr>w_retry_count := r\<rparr>) s"
      using Cons.prems(1) by (simp add: st)
    then show ?thesis by blast
  qed
qed

lemma unthrottled_failures:
  assumes "t < length (threads s)" "w_pc (threads s ! t) = Looping"
    "map_of (active_cameras s) (w_gate (threads s ! t)) = Some True"
    "\<forall>ob \<in> set obs. o_read ob = ReadFailed \<and> \<not> ahead_of_target (o_time ob) (threads s ! t)"
    "w_retry_count (threads s ! t) + length obs \<le> max_retries"
  shows "camera_worker obs t s =
           set_worker t ((threads s ! t)\<lparr>w_retry_count := w_retry_count (threads s ! t) + length obs\<rparr>) s"
  using assms
proof (induction obs arbitrary: s)
  case Nil
  show ?case by (simp add: set_worker_def)
next
  case (Cons ob obs)
  let ?w = "threads s ! t"
  let ?w1 = "?w\<lparr>w_retry_count := Suc (w_retry_count ?w)\<rparr>"
  let ?s1 = "set_worker t ?w1 s"
  have st: "worker_step ob t s = ?s1" using Cons.prems by (simp add: failed_step)
  have ah: "ahead_of_target x ?w1 = ahead_of_target x ?w" for x by (simp add: ahead_of_target_def)
  have "camera_worker obs t ?s1 =
          set_worker t ((threads ?s1 ! t)\<lparr>w_retry_count := w_retry_count (threads ?s1 ! t) + length obs\<rparr>) ?s1"
    using Cons.prems by (intro Cons.IH) (simp_all add: ah)
  then show ?case using Cons.prems(1) by (simp add: st)
qed

lemma exhausted_step:
  assumes "t < length (threads s)" "w_pc (threads s ! t) = Looping"
    "map_of (active_cameras s) (w_gate (threads s ! t)) = Some True"
    "o_read ob = ReadFailed" "w_retry_count (threads s ! t) = max_retries"
    "\<not> ahead_of_target (o_time ob) (threads s ! t)"
  shows "worker_step ob t s =
           finish t ((threads s ! t)\<lparr>w_retry_count := Suc max_retries\<rparr>)
             (publish (w_gate (threads s ! t))
                (error_item ''Camera stream disconnected. Please reconnect.'') s)"
  using assms by (simp add: worker_step_def iterate_def Let_def)

lemma camera_worker_append: "camera_worker (xs @ ys) t s = camera_worker ys t (camera_worker xs t s)"
  by (induction xs arbitrary: s) simp_all

lemma finally_fields [simp]:
  "active_cameras (finally_block g s) = active_cameras s"
  "camera_queues (finally_block g s) = camera_queues s"
  by (simp_all add: finally_block_def split: option.splits)

lemma finally_unregisters [simp]: "map_of (camera_captures (finally_block g s)) g = None"
  by (simp add: finally_block_def delete_conv' split: option.splits)

lemma finally_releases:
  "map_of (camera_captures s) g = Some c \<Longrightarrow> c < length (caps s) \<Longrightarrow>
   \<not> caps (finally_block g s) ! c"
  by (simp add: finally_block_def)

lemma finish_fields [simp]:
  "active_cameras (finish t w s) = active_cameras s"
  "camera_queues (finish t w s) = camera_queues s"
  "length (threads (finish t w s)) = length (threads s)"
  "t < length (threads s) \<Longrightarrow> threads (finish t w s) ! t = w\<lparr>w_pc := Finished\<rparr>"
  "map_of (camera_captures (finish t w s)) (w_gate w) = None"
  by (simp_all add: finish_def)

lemma finish_releases:
  "map_of (camera_captures s) (w_gate w) = Some c \<Longrightarrow> c < length (caps s) \<Longrightarrow>
   \<not> caps (finish t w s) ! c"
  by (simp add: finish_def finally_releases)

lemma publish_fields [simp]:
  "active_cameras (publish g item s) = active_cameras s"
  "camera_captures (publish g item s) = camera_captures s"
  "caps (publish g item s) = caps s"
  by (simp_all add: publish_def split: option.splits)

lemma publish_present:
  "map_of (camera_queues s) g = Some q \<Longrightarrow>
   map_of (camera_queues (publish g item s)) g = Some (q @ [item])"
  by (simp add: publish_def update_conv')

text \<open>
  C3.  A worker is inside its loop, its session is active and its gate has a queue.  A run
  of at most \<open>max_retries\<close> failed reads that starts with the counter at zero
  leaves the worker in the loop, publishes nothing and leaves the session flags as they
  are.  A run of \<open>max_retries + 1\<close> failed reads, none skipped by the rate
  check, ends with the thread returned and one more item on the queue, whose status is
  disconnected and whose error is not empty.  A successful read sets the retry counter to
  zero.
\<close>

theorem retry_policy:
  assumes "t < length (threads s)"
    and "w_pc (threads s ! t) = Looping"
    and "map_of (active_cameras s) (w_gate (threads s ! t)) = Some True"
    and "map_of (camera_queues s) (w_gate (threads s ! t)) = Some q"
  shows "(w_retry_count (threads s ! t) = 0 \<and> (\<forall>ob \<in> set obs. o_read ob = ReadFailed)
            \<and> length obs \<le> max_retries \<longrightarrow>
          w_pc (threads (camera_worker obs t s) ! t) = Looping \<and>
          camera_queues (camera_worker obs t s) = camera_queues s \<and>
          active_cameras (camera_worker obs t s) = active_cameras s)
       \<and> (w_retry_count (threads s ! t) = 0
            \<and> (\<forall>ob \<in> set obs'. o_read ob = ReadFailed
                   \<and> \<not> ahead_of_target (o_time ob) (threads s ! t))
            \<and> length obs' = Suc max_retries \<longrightarrow>
          w_pc (threads (camera_worker obs' t s) ! t) = Finished \<and>
          (\<exists>item e. map_of (camera_queues (camera_worker obs' t s)) (w_gate (threads s ! t))
                       = Some (q @ [item])
                     \<and> q_status item = ''disconnected'' \<and> q_error item = Some e \<and> e \<noteq> []))
       \<and> (o_read ob = ReadFrame f \<and> \<not> ahead_of_target (o_time ob) (threads s ! t) \<longrightarrow>
          w_retry_count (threads (worker_step ob t s) ! t) = 0)"
proof (intro conjI impI)
  let ?w = "threads s ! t"
  {
    assume a: "w_retry_count ?w = 0 \<and> (\<forall>ob \<in> set obs. o_read ob = ReadFailed)
                 \<and> length obs \<le> max_retries"
    then obtain r where r: "camera_worker obs t s = set_worker t (?w\<lparr>w_retry_count := r\<rparr>) s"
      using failed_reads_keep_looping [OF assms(1-3), of obs] by auto
    show "w_pc (threads (camera_worker obs t s) ! t) = Looping" using assms(1,2) by (simp add: r)
    show "camera_queues (camera_worker obs t s) = camera_queues s" by (simp add: r)
    show "active_cameras (camera_worker obs t s) = active_cameras s" by (simp add: r)
  }
  {
    assume a: "w_retry_count ?w = 0
                 \<and> (\<forall>ob \<in> set obs'. o_read ob = ReadFailed \<and> \<not> ahead_of_target (o_time ob) ?w)
                 \<and> length obs' = Suc max_retries"
    then obtain xs x where xs: "obs' = xs @ [x]" by (cases obs' rule: rev_cases) auto
    let ?w10 = "?w\<lparr>w_retry_count := max_retries\<rparr>"
    let ?s10 = "set_worker t ?w10 s"
    have len: "length xs = max_retries" using a xs by simp
    have "camera_worker xs t s = set_worker t (?w\<lparr>w_retry_count := w_retry_count ?w + length xs\<rparr>) s"
      using a xs len by (intro unthrottled_failures [OF assms(1-3)]) auto
    then have s10: "camera_worker xs t s = ?s10" using a len by simp
    have x: "o_read x = ReadFailed" "\<not> ahead_of_target (o_time x) ?w" using a xs by auto
    have ah: "ahead_of_target (o_time x) ?w10 = ahead_of_target (o_time x) ?w"
      by (simp add: ahead_of_target_def)
    have "worker_step x t ?s10 =
            finish t ((threads ?s10 ! t)\<lparr>w_retry_count := Suc max_retries\<rparr>)
              (publish (w_gate (threads ?s10 ! t))
                 (error_item ''Camera stream disconnected. Please reconnect.'') ?s10)"
      using assms(1-3) x by (intro exhausted_step) (simp_all add: ah)
    then have fin: "camera_worker obs' t s =
            finish t (?w\<lparr>w_retry_count := Suc max_retries\<rparr>)
              (publish (w_gate ?w) (error_item ''Camera stream disconnected. Please reconnect.'') ?s10)"
      using assms(1) by (simp add: xs camera_worker_append s10)
    show "w_pc (threads (camera_worker obs' t s) ! t) = Finished"
      using assms(1) by (simp add: fin)
    have "map_of (camera_queues (camera_worker obs' t s)) (w_gate ?w)
            = Some (q @ [error_item ''Camera stream disconnected. Please reconnect.''])"
      using assms(4) by (simp add: fin publish_present)
    then show "\<exists>item e. map_of (camera_queues (camera_worker obs' t s)) (w_gate ?w) = Some (q @ [item])
                     \<and> q_status item = ''disconnected'' \<and> q_error item = Some e \<and> e \<noteq> []"
      by (simp add: error_item_def)
  }
  {
    assume a: "o_read ob = ReadFrame f \<and> \<not> ahead_of_target (o_time ob) ?w"
    show "w_retry_count (threads (worker_step ob t s) ! t) = 0"
      using assms(1-3) a
      by (simp add: worker_step_def iterate_def process_frame_def except_block_def Let_def
          split: option.splits)
  }
qed

theorem retry_policy_witness:
  "0 < length (threads looping_A)
   \<and> w_pc (threads looping_A ! 0) = Looping
   \<and> map_of (active_cameras looping_A) (w_gate (threads looping_A ! 0)) = Some True
   \<and> map_of (camera_queues looping_A) (w_gate (threads looping_A ! 0)) = Some []
   \<and> w_retry_count (threads looping_A ! 0) = 0
   \<and> list_all (\<lambda>ob. o_read ob = ReadFailed) (replicate 10 (read_fails 100))
   \<and> length (replicate 10 (read_fails 100)) \<le> max_retries
   \<and> w_pc (threads (camera_worker (replicate 10 (read_fails 100)) 0 looping_A) ! 0) = Looping
   \<and> camera_queues (camera_worker (replicate 10 (read_fails 100)) 0 looping_A) = camera_queues looping_A
   \<and> length (replicate 11 (read_fails 100)) = Suc max_retries
   \<and> w_pc (threads (camera_worker (replicate 11 (read_fails 100)) 0 looping_A) ! 0) = Finished
   \<and> w_retry_count (threads three_failures ! 0) = 3
   \<and> w_retry_count (threads (worker_step (frame_seen 100 7) 0 three_failures) ! 0) = 0"
proof -
  have k1: "0 < length (threads three_failures)" by code_simp
  have k2: "w_pc (threads three_failures ! 0) = Looping" by code_simp
  have k3: "map_of (active_cameras three_failures) (w_gate (threads three_failures ! 0)) = Some True"
    by code_simp
  have k4: "map_of (camera_queues three_failures) (w_gate (threads three_failures ! 0)) = Some []"
    by code_simp
  have k5: "w_retry_count (threads three_failures ! 0) = 3" by code_simp
  have k6: "o_read (frame_seen 100 7)
              = ReadFrame \<lparr>f_resize_raises = None, f_people = 7, f_preview = Some ''jpg''\<rparr>
              \<and> \<not> ahead_of_target (o_time (frame_seen 100 7)) (threads three_failures ! 0)"
    by code_simp
  have r: "w_retry_count (threads (worker_step (frame_seen 100 7) 0 three_failures) ! 0) = 0"
    using retry_policy [OF k1 k2 k3 k4, of "[]" "[]" "frame_seen 100 7"
      "\<lparr>f_resize_raises = None, f_people = 7, f_preview = Some ''jpg''\<rparr>"] k6
    by blast
  have h1: "0 < length (threads looping_A)" by code_simp
  have h2: "w_pc (threads looping_A ! 0) = Looping" by code_simp
  have h3: "map_of (active_cameras looping_A) (w_gate (threads looping_A ! 0)) = Some True"
    by code_simp
  have h4: "map_of (camera_queues looping_A) (w_gate (threads looping_A ! 0)) = Some []"
    by code_simp
  have a1: "w_retry_count (threads looping_A ! 0) = 0
              \<and> (\<forall>ob \<in> set (replicate 10 (read_fails 100)). o_read ob = ReadFailed)
              \<and> length (replicate 10 (read_fails 100)) \<le> max_retries"
    by code_simp
  have a2: "w_retry_count (threads looping_A ! 0) = 0
              \<and> (\<forall>ob \<in> set (replicate 11 (read_fails 100)). o_read ob = ReadFailed
                     \<and> \<not> ahead_of_target (o_time ob) (threads looping_A ! 0))
              \<and> length (replicate 11 (read_fails 100)) = Suc max_retries"
    by code_simp
  have a3: "o_read (frame_seen 100 7)
              = ReadFrame \<lparr>f_resize_raises = None, f_people = 7, f_preview = Some ''jpg''\<rparr>
              \<and> \<not> ahead_of_target (o_time (frame_seen 100 7)) (threads looping_A ! 0)"
    by code_simp
  have a4: "list_all (\<lambda>ob. o_read ob = ReadFailed) (replicate 10 (read_fails 100))"
    by code_simp
  from retry_policy [OF h1 h2 h3 h4, of "replicate 10 (read_fails 100)"
      "replicate 11 (read_fails 100)" "frame_seen 100 7"
      "\<lparr>f_resize_raises = None, f_people = 7, f_preview = Some ''jpg''\<rparr>"]
  show ?thesis using h1 h2 h3 h4 a1 a2 a3 a4 k5 r by blast
qed

section \<open>Frame decimation\<close>

lemma except_thread [simp]:
  "t < length (threads s) \<Longrightarrow> threads (except_block msg t w s) ! t = w\<lparr>w_pc := Finished\<rparr>"
  by (simp add: except_block_def)

lemma process_frame_thread:
  assumes "t < length (threads s)" "f_resize_raises f = None"
  shows "w_frame_count (threads (process_frame f ct t w s) ! t) = w_frame_count w"
    and "w_detections (threads (process_frame f ct t w s) ! t) = Suc (w_detections w)"
  using assms by (simp_all add: process_frame_def Let_def split: option.splits)

lemma reads_frame_step:
  assumes "reads_frame ob t s"
  shows "w_frame_count (threads (worker_step ob t s) ! t) = Suc (w_frame_count (threads s ! t)) \<and>
         w_detections (threads (worker_step ob t s) ! t) =
           w_detections (threads s ! t)
             + (if Suc (w_frame_count (threads s ! t)) mod PROCESS_EVERY_N_FRAMES = 0 then 1 else 0)"
proof -
  let ?w = "threads s ! t"
  let ?w1 = "?w\<lparr>w_retry_count := 0, w_frame_count := Suc (w_frame_count ?w)\<rparr>"
  from assms obtain f where f: "o_read ob = ReadFrame f" "f_resize_raises f = None"
    by (auto simp add: reads_frame_def split: read_result.splits)
  from assms have t: "t < length (threads s)" by (simp add: reads_frame_def)
  have st: "worker_step ob t s =
      (if Suc (w_frame_count ?w) mod PROCESS_EVERY_N_FRAMES = 0
       then process_frame f (o_time ob) t ?w1 s else set_worker t ?w1 s)"
    using assms f by (simp add: reads_frame_def worker_step_def iterate_def Let_def)
  show ?thesis
  proof (cases "Suc (w_frame_count ?w) mod PROCESS_EVERY_N_FRAMES = 0")
    case True
    with st have "worker_step ob t s = process_frame f (o_time ob) t ?w1 s" by simp
    with process_frame_thread [OF t f(2), of "o_time ob" ?w1] True show ?thesis by simp
  next
    case False
    with st have "worker_step ob t s = set_worker t ?w1 s" by simp
    with t False show ?thesis by simp
  qed
qed

lemma window_count:
  fixes d d' a k :: nat
  assumes "d' + a div 2 = d + (a + k) div 2"
  shows "d' = d + ((a + k) div 2 - a div 2)"
    and "a mod 2 = 0 \<Longrightarrow> d' = d + k div 2"
proof -
  have le: "a div 2 \<le> (a + k) div 2" by (simp add: div_le_mono)
  with assms show "d' = d + ((a + k) div 2 - a div 2)" by linarith
  assume "a mod 2 = 0"
  then have "(a + k) div 2 = a div 2 + k div 2" by (simp add: div_add1_eq)
  with assms show "d' = d + k div 2" by linarith
qed

lemma window_step:
  fixes d1 d2 d a k :: nat
  assumes "d2 + Suc a div 2 = d1 + (Suc a + k) div 2"
    and "d1 = d + (if Suc a mod 2 = 0 then 1 else 0)"
  shows "d2 + a div 2 = d + (a + Suc k) div 2"
proof (cases "Suc a mod 2 = 0")
  case True
  then have "Suc a div 2 = Suc (a div 2)" by presburger
  with assms True show ?thesis by simp
next
  case False
  then have "Suc a div 2 = a div 2" by presburger
  with assms False show ?thesis by simp
qed

lemma reads_frames_count:
  assumes "reads_frames obs t s"
  shows "w_detections (threads (camera_worker obs t s) ! t) + w_frame_count (threads s ! t) div 2 =
         w_detections (threads s ! t) + (w_frame_count (threads s ! t) + length obs) div 2"
  using assms
proof (induction obs arbitrary: s)
  case Nil
  show ?case by simp
next
  case (Cons ob obs)
  from Cons.prems have rf: "reads_frame ob t s" and rest: "reads_frames obs t (worker_step ob t s)"
    by simp_all
  let ?s1 = "worker_step ob t s"
  from reads_frame_step [OF rf]
  have fc: "w_frame_count (threads ?s1 ! t) = Suc (w_frame_count (threads s ! t))"
    and d1: "w_detections (threads ?s1 ! t) =
              w_detections (threads s ! t)
                + (if Suc (w_frame_count (threads s ! t)) mod 2 = 0 then 1 else 0)"
    by (simp_all add: PROCESS_EVERY_N_FRAMES_def)
  from Cons.IH [OF rest]
  have "w_detections (threads (camera_worker obs t ?s1) ! t) + Suc (w_frame_count (threads s ! t)) div 2 =
        w_detections (threads ?s1 ! t) + (Suc (w_frame_count (threads s ! t)) + length obs) div 2"
    by (simp only: fc)
  from window_step [OF this d1] show ?case by simp
qed




section \<open>Leaving the worker\<close>

lemma exits_except: "exits_through_finally t (w_gate w) s (except_block msg t w s)"
  unfolding exits_through_finally_def except_block_def by blast

lemma exits_finish: "exits_through_finally t (w_gate w) s (finish t w s)"
  unfolding exits_through_finally_def by blast

lemma exits_finish_publish:
  "w_gate w' = g \<Longrightarrow> exits_through_finally t g s (finish t w' (publish g item s))"
  unfolding exits_through_finally_def by blast

lemma process_frame_cases:
  assumes "t < length (threads s)" "w_pc w = Looping"
  shows "exits_through_finally t (w_gate w) s (process_frame f ct t w s)
         \<or> w_pc (threads (process_frame f ct t w s) ! t) = Looping"
proof (cases "f_resize_raises f")
  case (Some msg)
  then show ?thesis by (simp add: process_frame_def exits_except)
next
  case None
  let ?w1 = "w\<lparr>w_detections := w_detections w + 1\<rparr>"
  show ?thesis
  proof (cases "map_of (camera_queues s) (w_gate w)")
    case nq: None
    with None assms show ?thesis by (simp add: process_frame_def Let_def)
  next
    case (Some q)
    show ?thesis
    proof (cases "map_of GATE_CONFIG (w_gate w)")
      case nc: None
      have "exits_through_finally t (w_gate ?w1) s
              (except_block ([CHR 0x27] @ w_gate w @ [CHR 0x27]) t ?w1 s)"
        by (rule exits_except)
      with None Some nc show ?thesis by (simp add: process_frame_def Let_def)
    next
      case (Some cfg)
      with None \<open>map_of (camera_queues s) (w_gate w) = Some q\<close> assms
      show ?thesis by (simp add: process_frame_def Let_def)
    qed
  qed
qed

lemma iterate_cases:
  assumes "t < length (threads s)" "w_pc w = Looping" "threads s ! t = w"
  shows "exits_through_finally t (w_gate w) s (iterate ob t w s)
         \<or> w_pc (threads (iterate ob t w s) ! t) = Looping"
proof (cases "map_of (active_cameras s) (w_gate w) = Some True")
  case False
  then show ?thesis by (simp add: iterate_def exits_finish)
next
  case active: True
  show ?thesis
  proof (cases "ahead_of_target (o_time ob) w")
    case True
    with active assms show ?thesis by (simp add: iterate_def)
  next
    case False
    show ?thesis
    proof (cases "o_read ob")
      case (ReadRaises msg)
      with active False show ?thesis by (simp add: iterate_def exits_except)
    next
      case ReadFailed
      let ?w1 = "w\<lparr>w_retry_count := w_retry_count w + 1\<rparr>"
      have "exits_through_finally t (w_gate w) s
              (finish t ?w1 (publish (w_gate w) (error_item ''Camera stream disconnected. Please reconnect.'') s))"
        by (rule exits_finish_publish) simp
      with ReadFailed active False assms show ?thesis by (simp add: iterate_def Let_def)
    next
      case (ReadFrame f)
      let ?w1 = "w\<lparr>w_retry_count := 0, w_frame_count := w_frame_count w + 1\<rparr>"
      have "exits_through_finally t (w_gate ?w1) s (process_frame f (o_time ob) t ?w1 s)
            \<or> w_pc (threads (process_frame f (o_time ob) t ?w1 s) ! t) = Looping"
        by (rule process_frame_cases) (simp_all add: assms)
      with ReadFrame active False assms show ?thesis by (simp add: iterate_def Let_def)
    qed
  qed
qed

lemma exits_released:
  assumes "exits_through_finally t g s s'"
    and "map_of (camera_captures s) g = Some c" "c < length (caps s)"
  shows "\<not> caps s' ! c \<and> map_of (camera_captures s') g = None"
proof -
  from assms(1) obtain w' where g: "w_gate w' = g"
    and c: "s' = finish t w' s \<or> (\<exists>item. s' = finish t w' (publish g item s))"
    unfolding exits_through_finally_def by blast
  from c show ?thesis
  proof
    assume "s' = finish t w' s"
    with g assms(2,3) finish_releases [of s w' c t] finish_fields(5) [of t w' s]
    show ?thesis by simp
  next
    assume "\<exists>item. s' = finish t w' (publish g item s)"
    then obtain item where "s' = finish t w' (publish g item s)" by blast
    with g assms(2,3) finish_releases [of "publish g item s" w' c t]
      finish_fields(5) [of t w' "publish g item s"]
    show ?thesis by simp
  qed
qed

lemma exits_unregistered:
  assumes "exits_through_finally t g s s'"
  shows "map_of (camera_captures s') g = None"
proof -
  from assms obtain w' where g: "w_gate w' = g"
    and c: "s' = finish t w' s \<or> (\<exists>item. s' = finish t w' (publish g item s))"
    unfolding exits_through_finally_def by blast
  from c show ?thesis
  proof
    assume "s' = finish t w' s"
    with g finish_fields(5) [of t w' s] show ?thesis by simp
  next
    assume "\<exists>item. s' = finish t w' (publish g item s)"
    then obtain item where "s' = finish t w' (publish g item s)" by blast
    with g finish_fields(5) [of t w' "publish g item s"] show ?thesis by simp
  qed
qed



section \<open>The session tables stay keyed within the active sessions\<close>

text \<open>
  The hypothesis of the two disconnect theorems is an invariant of the program: it holds
  in the initial state and after every request, monitor pass and worker step, a late
  registration excepted.
\<close>

lemma aligned_keyed: "aligned s \<longleftrightarrow> keyed_within (map fst (active_cameras s)) s"
  by (simp add: aligned_def keyed_within_def map_of_None_keys)

lemma keyed_sessions_ok:
  assumes "keyed_within (map fst (active_cameras s)) s"
  shows "sessions_ok s"
proof -
  have "k \<in> set (map fst (active_cameras s))"
    if "k \<in> set (map fst (camera_queues s)) \<or> k \<in> set (map fst (camera_threads s))
        \<or> k \<in> set (map fst (camera_captures s)) \<or> k \<in> set (map fst (camera_last_update s))" for k
    using that assms unfolding keyed_within_def map_of_None_keys by blast
  moreover have "thread_serves s k" for k using assms by (simp add: keyed_within_def)
  ultimately show ?thesis unfolding sessions_ok_def list_all_iff by auto
qed

lemma sessions_ok_aligned: "sessions_ok s \<longleftrightarrow> aligned s"
  using sessions_ok_keyed keyed_sessions_ok aligned_keyed by blast

lemma worker_step_finished_or_same:
  assumes "t < length (threads s)" "w_pc (threads s ! t) \<noteq> Created"
    "map_of (active_cameras s) (w_gate (threads s ! t)) = None"
  shows "map_of (camera_captures (worker_step ob t s)) (w_gate (threads s ! t)) = None
         \<or> worker_step ob t s = s"
proof (cases "w_pc (threads s ! t)")
  case Created
  with assms(2) show ?thesis by simp
next
  case Looping
  with assms(1,3) have "worker_step ob t s = finish t (threads s ! t) s"
    by (simp add: worker_step_def iterate_def)
  then show ?thesis by simp
next
  case Finished
  with assms(1) show ?thesis by (simp add: worker_step_def)
qed

lemma aligned_worker_step:
  assumes "aligned s" "\<not> late_registration (Step t ob) s"
  shows "aligned (worker_step ob t s)"
proof (cases "t < length (threads s)")
  case False
  with assms(1) show ?thesis by (simp add: worker_step_def)
next
  case True
  let ?g = "w_gate (threads s ! t)"
  let ?s' = "worker_step ob t s"
  note fr = frame_worker_step [of s t ob]
  have ts: "thread_serves ?s' k" for k
    using assms(1) fr by (simp add: aligned_def worker_frame_def thread_serves_def split: option.splits)
  have cap: "map_of (camera_captures ?s') ?g = None" if "map_of (active_cameras s) ?g = None"
  proof -
    from that assms(2) True have "w_pc (threads s ! t) \<noteq> Created" by simp
    from worker_step_finished_or_same [OF True this that, of ob]
    show ?thesis using assms(1) that by (auto simp add: aligned_def)
  qed
  have "map_of (camera_threads ?s') k = None \<and> map_of (camera_queues ?s') k = None \<and>
        map_of (camera_captures ?s') k = None \<and> map_of (camera_last_update ?s') k = None"
    if k: "map_of (active_cameras ?s') k = None" for k
  proof -
    from k fr have a: "map_of (active_cameras s) k = None" by (simp add: worker_frame_def)
    with assms(1) have old: "map_of (camera_threads s) k = None" "map_of (camera_queues s) k = None"
      "map_of (camera_captures s) k = None" "map_of (camera_last_update s) k = None"
      by (simp_all add: aligned_def)
    show ?thesis
    proof (cases "k = ?g")
      case True
      with a cap old fr show ?thesis by (simp add: worker_frame_def)
    next
      case False
      with old fr show ?thesis by (simp add: worker_frame_def)
    qed
  qed
  with ts show ?thesis unfolding aligned_def by blast
qed

lemma aligned_camera_worker:
  assumes "aligned s" "t < length (threads s)"
    "map_of (active_cameras s) (w_gate (threads s ! t)) \<noteq> None"
  shows "aligned (camera_worker obs t s)"
  using assms
proof (induction obs arbitrary: s)
  case Nil
  then show ?case by simp
next
  case (Cons ob obs)
  note fr = frame_worker_step [of s t ob]
  have "aligned (worker_step ob t s)"
    using Cons.prems by (intro aligned_worker_step) simp_all
  moreover have "t < length (threads (worker_step ob t s))"
    using Cons.prems(2) fr by (simp add: worker_frame_def)
  moreover have "map_of (active_cameras (worker_step ob t s))
                   (w_gate (threads (worker_step ob t s) ! t)) \<noteq> None"
    using Cons.prems(3) fr by (simp add: worker_frame_def)
  ultimately show ?case by (simp add: Cons.IH)
qed

lemma aligned_join_thread:
  assumes "aligned s" "map_of (active_cameras s) g \<noteq> None"
  shows "aligned (join_thread during g s)"
proof (cases "map_of (camera_threads s) g")
  case None
  with assms(1) show ?thesis by (simp add: join_thread_def)
next
  case (Some t)
  from assms(1) have "thread_serves s g" by (simp add: aligned_def)
  with Some have t: "t < length (threads s)" "w_gate (threads s ! t) = g"
    by (simp_all add: thread_serves_def)
  with assms have "aligned (camera_worker during t s)" by (intro aligned_camera_worker) simp_all
  with Some assms(1) show ?thesis by (simp add: join_thread_def)
qed

lemma thread_serves_cong:
  assumes "camera_threads s' = camera_threads s" "threads s' = threads s"
  shows "thread_serves s' k = thread_serves s k"
  by (simp only: thread_serves_def assms)

lemma aligned_flag:
  assumes "aligned s"
  shows "aligned (s\<lparr>active_cameras := AList.update g b (active_cameras s)\<rparr>)"
proof -
  have "thread_serves (s\<lparr>active_cameras := AList.update g b (active_cameras s)\<rparr>) k
          = thread_serves s k" for k
    by (rule thread_serves_cong) simp_all
  with assms show ?thesis by (simp add: aligned_def update_conv')
qed

lemma aligned_stop_worker:
  assumes "aligned s"
  shows "aligned (stop_worker during g s)"
  unfolding stop_worker_def
  by (rule aligned_join_thread) (simp_all add: aligned_flag [OF assms] update_conv')

lemma stop_worker_active:
  "map_of (active_cameras (stop_worker during g s)) g \<noteq> None"
proof -
  let ?s0 = "s\<lparr>active_cameras := AList.update g False (active_cameras s)\<rparr>"
  have "active_cameras (join_thread during g ?s0) = active_cameras ?s0"
  proof (cases "map_of (camera_threads ?s0) g")
    case None
    then show ?thesis by (simp add: join_thread_def)
  next
    case (Some t)
    from frame_camera_worker [of ?s0 t during] have "active_cameras (camera_worker during t ?s0) = active_cameras ?s0"
      by (simp only: worker_frame_def)
    with Some show ?thesis by (simp add: join_thread_def)
  qed
  then show ?thesis by (simp add: stop_worker_def update_conv')
qed

lemma aligned_cleanup:
  assumes "aligned s"
  shows "aligned (cleanup g s)"
proof -
  have ts: "thread_serves (cleanup g s) k" for k
  proof -
    from assms have "thread_serves s k" by (simp add: aligned_def)
    then show ?thesis
      by (cases "k = g")
         (simp_all add: cleanup_def Let_def thread_serves_def delete_conv' split: option.splits)
  qed
  have "map_of (camera_threads (cleanup g s)) k = None \<and> map_of (camera_queues (cleanup g s)) k = None \<and>
        map_of (camera_captures (cleanup g s)) k = None \<and> map_of (camera_last_update (cleanup g s)) k = None"
    if k: "map_of (active_cameras (cleanup g s)) k = None" for k
  proof (cases "k = g")
    case True
    then show ?thesis by (simp add: cleanup_removes)
  next
    case False
    with k cleanup_frame [of g s] have "map_of (active_cameras s) k = None"
      by (simp add: gate_frame_def)
    with assms have "map_of (camera_threads s) k = None \<and> map_of (camera_queues s) k = None \<and>
        map_of (camera_captures s) k = None \<and> map_of (camera_last_update s) k = None"
      by (simp add: aligned_def)
    with False cleanup_frame [of g s] show ?thesis by (simp add: gate_frame_def)
  qed
  with ts show ?thesis unfolding aligned_def by blast
qed

lemma aligned_teardown: "aligned s \<Longrightarrow> aligned (teardown during g s)"
  by (simp add: teardown_def aligned_cleanup aligned_stop_worker)

lemma aligned_disconnect_each: "aligned s \<Longrightarrow> aligned (disconnect_each during gs s)"
  by (induction gs arbitrary: s) (simp_all add: aligned_teardown)

lemma aligned_disconnect: "aligned s \<Longrightarrow> aligned (snd (disconnect_camera during req s))"
  by (simp add: disconnect_camera_def aligned_teardown aligned_disconnect_each split: option.splits)

lemma aligned_mobile: "aligned (s\<lparr>mobile_devices := m\<rparr>) = aligned s"
proof -
  have "thread_serves (s\<lparr>mobile_devices := m\<rparr>) k = thread_serves s k" for k
    by (rule thread_serves_cong) simp_all
  then show ?thesis by (simp add: aligned_def)
qed

lemma aligned_register: "aligned s \<Longrightarrow> aligned (snd (register_mobile now valid req s))"
  by (simp add: register_mobile_def aligned_mobile split: option.splits)

lemma aligned_tables:
  assumes "aligned s" "map_of (active_cameras s') g \<noteq> None"
    and "\<forall>k. k \<noteq> g \<longrightarrow> map_of (active_cameras s') k = map_of (active_cameras s) k"
    and "\<forall>k. k \<noteq> g \<longrightarrow> map_of (camera_queues s') k = map_of (camera_queues s) k"
    and "\<forall>k. k \<noteq> g \<longrightarrow> map_of (camera_last_update s') k = map_of (camera_last_update s) k"
    and "camera_threads s' = camera_threads s" "camera_captures s' = camera_captures s"
      "threads s' = threads s"
  shows "aligned s'"
proof -
  have ts: "thread_serves s' k = thread_serves s k" for k
    by (rule thread_serves_cong) (simp_all add: assms)
  have "map_of (camera_threads s') k = None \<and> map_of (camera_queues s') k = None \<and>
        map_of (camera_captures s') k = None \<and> map_of (camera_last_update s') k = None"
    if k: "map_of (active_cameras s') k = None" for k
  proof -
    from k assms(2) have ne: "k \<noteq> g" by auto
    with k assms(3) have "map_of (active_cameras s) k = None" by simp
    with assms(1) have "map_of (camera_threads s) k = None \<and> map_of (camera_queues s) k = None \<and>
        map_of (camera_captures s) k = None \<and> map_of (camera_last_update s) k = None"
      by (simp add: aligned_def)
    with ne assms(4-7) show ?thesis by simp
  qed
  moreover have "thread_serves s' k" for k using assms(1) ts by (simp add: aligned_def)
  ultimately show ?thesis unfolding aligned_def by blast
qed

lemma aligned_spawn:
  assumes "aligned s" "map_of (active_cameras s) g \<noteq> None"
  shows "aligned (spawn g src s)"
proof -
  have ts: "thread_serves (spawn g src s) k" for k
  proof (cases "k = g")
    case True
    then show ?thesis by (simp add: spawn_def thread_serves_def update_conv' new_worker_def)
  next
    case False
    from assms(1) have "thread_serves s k" by (simp add: aligned_def)
    with False show ?thesis
      by (simp add: spawn_def thread_serves_def update_conv' nth_append split: option.splits)
  qed
  have "map_of (camera_threads (spawn g src s)) k = None \<and> map_of (camera_queues (spawn g src s)) k = None \<and>
        map_of (camera_captures (spawn g src s)) k = None \<and> map_of (camera_last_update (spawn g src s)) k = None"
    if k: "map_of (active_cameras (spawn g src s)) k = None" for k
  proof -
    from k have a: "map_of (active_cameras s) k = None" by (simp add: spawn_def)
    with assms(2) have ne: "k \<noteq> g" by auto
    from a assms(1) have "map_of (camera_threads s) k = None \<and> map_of (camera_queues s) k = None \<and>
        map_of (camera_captures s) k = None \<and> map_of (camera_last_update s) k = None"
      by (simp add: aligned_def)
    with ne show ?thesis by (simp add: spawn_def update_conv')
  qed
  with ts show ?thesis unfolding aligned_def by blast
qed

lemma aligned_started:
  assumes "aligned s"
  shows "aligned (spawn g src
           (s\<lparr>camera_queues := AList.update g [] (camera_queues s),
              active_cameras := AList.update g True (active_cameras s)\<rparr>))"
    and "aligned (spawn g src
           (s\<lparr>camera_queues := AList.update g [] (camera_queues s),
              active_cameras := AList.update g True (active_cameras s),
              camera_last_update := AList.update g now (camera_last_update s)\<rparr>))"
    and "aligned (spawn g src
           (s\<lparr>camera_queues := AList.update g [] (camera_queues s),
              active_cameras := AList.update g True (active_cameras s),
              camera_last_update := AList.update g now (camera_last_update s),
              mobile_devices := m\<rparr>))"
proof -
  show "aligned (spawn g src
           (s\<lparr>camera_queues := AList.update g [] (camera_queues s),
              active_cameras := AList.update g True (active_cameras s)\<rparr>))"
    by (rule aligned_spawn, rule aligned_tables [OF assms, where g = g])
       (simp_all add: update_conv')
  show "aligned (spawn g src
           (s\<lparr>camera_queues := AList.update g [] (camera_queues s),
              active_cameras := AList.update g True (active_cameras s),
              camera_last_update := AList.update g now (camera_last_update s)\<rparr>))"
    by (rule aligned_spawn, rule aligned_tables [OF assms, where g = g])
       (simp_all add: update_conv')
  show "aligned (spawn g src
           (s\<lparr>camera_queues := AList.update g [] (camera_queues s),
              active_cameras := AList.update g True (active_cameras s),
              camera_last_update := AList.update g now (camera_last_update s),
              mobile_devices := m\<rparr>))"
    by (rule aligned_spawn, rule aligned_tables [OF assms, where g = g])
       (simp_all add: update_conv')
qed

lemma aligned_restart: "aligned s \<Longrightarrow> aligned (restart_camera during g s)"
  by (cases "map_of (active_cameras s) g")
     (simp_all add: restart_camera_def Let_def aligned_started(1) aligned_stop_worker)

lemma aligned_connect: "aligned s \<Longrightarrow> aligned (snd (connect_camera now during req s))"
proof -
  assume a: "aligned s"
  show ?thesis
  proof (cases req)
    case None
    with a show ?thesis by (simp add: connect_camera_def)
  next
    case (Some data)
    show ?thesis
    proof (cases "c_gate_id data")
      case None
      with Some a show ?thesis by (simp add: connect_camera_def)
    next
      case g: (Some g)
      show ?thesis
      proof (cases "map_of (active_cameras s) g")
        case None
        with a g Some show ?thesis
          by (simp add: connect_camera_def Let_def aligned_started split: option.splits)
      next
        case act: (Some b)
        have "aligned (stop_worker during g s)" using a by (rule aligned_stop_worker)
        with act g Some a show ?thesis
          by (simp add: connect_camera_def Let_def aligned_started split: option.splits)
      qed
    qed
  qed
qed

lemma aligned_gate_status_of: "aligned s \<Longrightarrow> aligned (snd (gate_status_of now g s))"
proof -
  assume a: "aligned s"
  show ?thesis
  proof (cases "map_of (camera_queues s) g")
    case None
    with a show ?thesis by (simp add: gate_status_of_def)
  next
    case (Some q)
    with a have act: "map_of (active_cameras s) g \<noteq> None" by (auto simp add: aligned_def)
    show ?thesis
    proof (cases q)
      case Nil
      with Some a show ?thesis by (simp add: gate_status_of_def)
    next
      case (Cons d rest)
      have "aligned (s\<lparr>camera_queues := AList.update g rest (camera_queues s),
              camera_last_update := AList.update g now (camera_last_update s)\<rparr>)"
        by (rule aligned_tables [OF a, where g = g]) (simp_all add: act update_conv')
      with Some Cons show ?thesis by (simp add: gate_status_of_def)
    qed
  qed
qed

lemma aligned_status_loop: "aligned s \<Longrightarrow> aligned (snd (status_loop now gs (st, s)))"
proof (induction gs arbitrary: st s)
  case Nil
  then show ?case by simp
next
  case (Cons g gs)
  show ?case
  proof (cases "g = ''Temple''")
    case True
    with Cons show ?thesis by simp
  next
    case False
    from Cons.IH [OF aligned_gate_status_of [OF Cons.prems, of now g]]
    show ?thesis unfolding status_loop_step [OF False] .
  qed
qed

lemma aligned_check_gates: "aligned s \<Longrightarrow> aligned (check_gates now during gs s)"
  by (induction gs arbitrary: s) (simp_all add: check_gate_def aligned_restart split: option.splits)

lemma sessions_ok_initial: "sessions_ok initial_state"
  by (simp add: sessions_ok_def initial_state_def)

lemma sessions_ok_preserved:
  assumes "sessions_ok s" "\<not> late_registration e s"
  shows "sessions_ok (exec e s)"
proof -
  from assms(1) have a: "aligned s" by (simp add: sessions_ok_aligned)
  have "aligned (exec e s)"
  proof (cases e)
    case (Connect now during req)
    with a show ?thesis by (simp add: aligned_connect)
  next
    case (Register now valid req)
    with a show ?thesis by (simp add: aligned_register)
  next
    case (Disconnect during req)
    with a show ?thesis by (simp add: aligned_disconnect)
  next
    case (Status now)
    with a show ?thesis by (simp add: get_camera_status_def aligned_status_loop)
  next
    case (Health now during)
    with a show ?thesis by (simp add: health_pass_def aligned_check_gates)
  next
    case (Step t ob)
    with a assms(2) show ?thesis by (simp add: aligned_worker_step)
  qed
  then show ?thesis by (simp add: sessions_ok_aligned)
qed

lemma sessions_ok_run:
  "sessions_ok s \<Longrightarrow> no_late_registration es s \<Longrightarrow> sessions_ok (run_events es s)"
  by (induction es arbitrary: s) (simp_all add: sessions_ok_preserved)

lemma sessions_ok_reachable:
  "no_late_registration es initial_state \<Longrightarrow> sessions_ok (run_events es initial_state)"
  by (rule sessions_ok_run [OF sessions_ok_initial])

lemma sessions_ok_thread_serves: "sessions_ok s \<Longrightarrow> thread_serves s g"
  by (simp add: sessions_ok_aligned aligned_def)

section \<open>Reconnecting and restarting\<close>

text \<open>
  In every state, a connect whose join times out leaves the old worker alive, starts a new
  one and sets the flag of the gate again
  (\<open>timed_out_connect_keeps_old_worker\<close>); and a restart by the monitor leaves
  the timestamp of the gate as it was, so the next pass finds it as old as before and
  restarts again (\<open>restart_repeats\<close>).
\<close>

lemma camera_worker_last_update [simp]:
  "camera_last_update (camera_worker obs t s) = camera_last_update s"
  using frame_camera_worker [of s t obs] by (simp add: worker_frame_def)

lemma stop_worker_last_update [simp]:
  "camera_last_update (stop_worker during g s) = camera_last_update s"
  by (simp add: stop_worker_def join_thread_def split: option.splits)

lemma restart_keeps_timestamp:
  "camera_last_update (restart_camera during g s) = camera_last_update s"
  by (simp add: restart_camera_def spawn_def Let_def)

lemma restart_state:
  "map_of (active_cameras (restart_camera during g s)) g = Some True"
  "map_of (camera_queues (restart_camera during g s)) g = Some []"
  "length (threads (restart_camera during g s)) = Suc (length (threads s))"
proof -
  have len: "length (threads (stop_worker during g s)) = length (threads s)"
  proof (cases "map_of (camera_threads s) g")
    case None
    then show ?thesis by (simp add: stop_worker_def join_thread_def)
  next
    case (Some t)
    let ?s0 = "s\<lparr>active_cameras := AList.update g False (active_cameras s)\<rparr>"
    from frame_camera_worker [of ?s0 t during]
    have "length (threads (camera_worker during t ?s0)) = length (threads s)"
      by (simp add: worker_frame_def)
    with Some show ?thesis by (simp add: stop_worker_def join_thread_def)
  qed
  show "map_of (active_cameras (restart_camera during g s)) g = Some True"
    by (simp add: restart_camera_def spawn_def Let_def update_conv')
  show "map_of (camera_queues (restart_camera during g s)) g = Some []"
    by (simp add: restart_camera_def spawn_def Let_def update_conv')
  show "length (threads (restart_camera during g s)) = Suc (length (threads s))"
    by (simp add: restart_camera_def spawn_def Let_def len)
qed

lemma restart_repeats:
  assumes "map_of (camera_last_update s) g = Some last_update"
    and "float_sub now last_update > 10"
  shows "check_gate now during' g (restart_camera during g s)
           = restart_camera during' g (restart_camera during g s)"
    and "length (threads (check_gate now during' g (restart_camera during g s)))
           = Suc (Suc (length (threads s)))"
proof -
  show eq: "check_gate now during' g (restart_camera during g s)
           = restart_camera during' g (restart_camera during g s)"
    using assms by (simp add: check_gate_def restart_state restart_keeps_timestamp)
  show "length (threads (check_gate now during' g (restart_camera during g s)))
           = Suc (Suc (length (threads s)))"
    unfolding eq by (simp add: restart_state)
qed

lemma timed_out_connect_keeps_old_worker:
  assumes "map_of (active_cameras s) g \<noteq> None" "map_of (camera_threads s) g = Some t"
    and "is_alive t s" "c_gate_id data = Some g" "g \<noteq> []"
  shows "is_alive t (snd (connect_camera now [] (Some data) s))"
    and "is_alive (length (threads s)) (snd (connect_camera now [] (Some data) s))"
    and "w_gate (threads (snd (connect_camera now [] (Some data) s)) ! t) = w_gate (threads s ! t)"
    and "map_of (active_cameras (snd (connect_camera now [] (Some data) s))) g = Some True"
    and "map_of (camera_threads (snd (connect_camera now [] (Some data) s))) g
           = Some (length (threads s))"
  using assms
  by (simp_all add: connect_camera_def stop_worker_def join_thread_def spawn_def Let_def
      is_alive_def update_conv' nth_append new_worker_def split: option.splits)

text \<open>
  C1, evaluated on the code.  After the first connect one worker is alive for gate A.
  When the first worker returns while the second connect waits, one worker is alive
  afterwards.  After a second connect whose join timed out while the first worker was
  opening its camera, two workers are alive for gate A; the registered one (thread 1) has
  not made a step, and the status query returns the count 7 published by the first worker
  (thread 0, source 0).
\<close>

theorem second_connect_leaves_two_workers:
  "live_workers ''A'' connected_A = [0]
   \<and> live_workers ''A'' two_connects_joined = [1]
   \<and> live_workers ''A'' two_connects = [0, 1]
   \<and> map_of (camera_threads two_connects) ''A'' = Some 1
   \<and> w_pc (threads two_connects ! 1) = Created
   \<and> w_source (threads two_connects ! 0) = ''0''
   \<and> map_option st_count (map_of (fst (get_camera_status 102 two_connects)) ''A'') = Some 7"
  by code_simp

text \<open>
  C4, evaluated on the code.  A mobile session connected at time 0 publishes nothing.  The
  pass at time 11 starts a second thread; the new worker has made no step and the queue is
  empty.  \<open>restart_camera\<close> does not refresh
  \<^verbatim>\<open>camera_last_update\<close> (\<open>connect_camera\<close> does), so
  the pass at time 16 restarts the camera again and starts a third thread.
\<close>

theorem health_monitor_restarts_twice:
  "length (threads stalled_mobile) = 1
   \<and> length (threads (health_pass 11 opens_then_returns stalled_mobile)) = 2
   \<and> map_of (camera_queues (health_pass 11 opens_then_returns stalled_mobile)) ''A'' = Some []
   \<and> w_pc (threads (health_pass 11 opens_then_returns stalled_mobile) ! 1) = Created
   \<and> length (threads (health_pass 16 opens_then_returns
                         (health_pass 11 opens_then_returns stalled_mobile))) = 3
   \<and> map_of (camera_last_update (health_pass 11 opens_then_returns stalled_mobile)) ''A'' = Some 0"
  by code_simp

end
